theory Spec2Isabelle
  imports Main
begin

section \<open>Strings and numbers of the source language\<close>

text \<open>
  A string is a list of characters; a character stands for a code unit below 256.
  In that range the white space of \<^verbatim>\<open>\s\<close>, \<^verbatim>\<open>\S\<close> and \<^verbatim>\<open>trim()\<close> is
  tab, line feed, vertical tab, form feed, carriage return, space and the
  no-break space; \<^verbatim>\<open>\d\<close> is an ASCII digit.
\<close>

definition is_space :: "char \<Rightarrow> bool" where
  "is_space c = (c \<in> set [CHR 0x09, CHR 0x0A, CHR 0x0B, CHR 0x0C, CHR 0x0D, CHR 0x20, CHR 0xA0])"

definition is_digit :: "char \<Rightarrow> bool" where
  "is_digit c = (c \<in> set ''0123456789'')"

text \<open>\<^verbatim>\<open>s.startsWith(p)\<close>.\<close>

fun startsWith :: "string \<Rightarrow> string \<Rightarrow> bool" where
  "startsWith s [] = True"
| "startsWith [] (p # ps) = False"
| "startsWith (c # cs) (p # ps) = (c = p \<and> startsWith cs ps)"

text \<open>\<^verbatim>\<open>s.trim()\<close>: white space is removed at both ends.\<close>

definition trim :: "string \<Rightarrow> string" where
  "trim s = rev (dropWhile is_space (rev (dropWhile is_space s)))"

text \<open>
  \<^verbatim>\<open>s.toLowerCase()\<close> on code units below 256: the letters A to Z and the
  accented capitals 0xC0 to 0xDE (without the multiplication sign 0xD7) move up by 32.
\<close>

definition lower_char :: "char \<Rightarrow> char" where
  "lower_char c =
     (let n = of_char c :: nat
      in if (65 \<le> n \<and> n \<le> 90) \<or> (192 \<le> n \<and> n \<le> 222 \<and> n \<noteq> 215)
         then char_of (n + 32) else c)"

definition toLowerCase :: "string \<Rightarrow> string" where
  "toLowerCase s = map lower_char s"

text \<open>
  \<^verbatim>\<open>buffer.split("\n")\<close>: the pieces between line feeds. The empty string gives
  one empty piece, and a string ending in a line feed gives a last, empty piece.
\<close>

fun split_nl :: "string \<Rightarrow> string list" where
  "split_nl [] = [[]]"
| "split_nl (c # cs) =
     (if c = CHR 0x0A then [] # split_nl cs
      else (case split_nl cs of
              [] \<Rightarrow> [[c]]
            | l # ls \<Rightarrow> (c # l) # ls))"

text \<open>
  A number of the source language, as far as the program uses one: a line number read
  from decimal digits, or \<^verbatim>\<open>NaN\<close>. \<^verbatim>\<open>Number(undefined)\<close> is \<^verbatim>\<open>NaN\<close>;
  \<^verbatim>\<open>Number\<close> of a digit string is its decimal value (exact below \<open>2 ^ 53\<close>,
  the range the theorems about line numbers are stated for).
\<close>

datatype jsnum = NaN | Num nat

definition digit_val :: "char \<Rightarrow> nat" where
  "digit_val c = of_char c - 48"

definition digits_value :: "string \<Rightarrow> nat" where
  "digits_value ds = foldl (\<lambda>n c. 10 * n + digit_val c) 0 ds"

fun Number :: "string option \<Rightarrow> jsnum" where
  "Number None = NaN"
| "Number (Some ds) = Num (digits_value ds)"

fun isNaN :: "jsnum \<Rightarrow> bool" where
  "isNaN NaN = True"
| "isNaN (Num n) = False"

section \<open>The header pattern\<close>

text \<open>
  \<^verbatim>\<open>/^\*\*\* (INFO|ERROR|WARNING) (M\d+): \S+( \(Line (\d+)\))?/\<close>

  \<open>literal p s\<close> matches the fixed text \<open>p\<close> at the start of \<open>s\<close> and returns
  what follows it.
\<close>

fun literal :: "string \<Rightarrow> string \<Rightarrow> string option" where
  "literal [] s = Some s"
| "literal (p # ps) [] = None"
| "literal (p # ps) (c # cs) = (if p = c then literal ps cs else None)"

text \<open>Group 1, \<^verbatim>\<open>(INFO|ERROR|WARNING)\<close>: the alternatives are tried in this order.\<close>

definition match_severity :: "string \<Rightarrow> (string \<times> string) option" where
  "match_severity s =
     (case literal ''INFO'' s of
        Some r \<Rightarrow> Some (''INFO'', r)
      | None \<Rightarrow>
          (case literal ''ERROR'' s of
             Some r \<Rightarrow> Some (''ERROR'', r)
           | None \<Rightarrow>
               (case literal ''WARNING'' s of
                  Some r \<Rightarrow> Some (''WARNING'', r)
                | None \<Rightarrow> None)))"

text \<open>
  Groups 3 and 4, \<^verbatim>\<open>( \(Line (\d+)\))?\<close>, tried where \<^verbatim>\<open>\S+\<close> stopped: the
  digits of group 4 when the text there is \<^verbatim>\<open> (Line \<close>, digits and \<^verbatim>\<open>)\<close>; otherwise
  the group matches nothing and group 4 is undefined.
\<close>

definition match_line_group :: "string \<Rightarrow> string option" where
  "match_line_group s =
     (case literal '' (Line '' s of
        None \<Rightarrow> None
      | Some r \<Rightarrow>
          (let ds = takeWhile is_digit r; r' = dropWhile is_digit r
           in if ds \<noteq> [] \<and> startsWith r' '')'' then Some ds else None))"

text \<open>
  \<^verbatim>\<open>line.match(MESSAGE_PATTERN)\<close>: \<open>None\<close> for \<^verbatim>\<open>null\<close>, otherwise groups 1, 2
  and 4. The pattern is anchored at the start of the line only. \<^verbatim>\<open>\d+\<close> and
  \<^verbatim>\<open>\S+\<close> are greedy and what follows each of them cannot start with a character
  of its class, so the longest run is the only one that can match; after \<^verbatim>\<open>\S+\<close>
  the optional group is tried once and the match succeeds with or without it.
\<close>

definition MESSAGE_PATTERN :: "string \<Rightarrow> (string \<times> string \<times> string option) option" where
  "MESSAGE_PATTERN s =
     (case literal ''*** '' s of
        None \<Rightarrow> None
      | Some r1 \<Rightarrow>
          (case match_severity r1 of
             None \<Rightarrow> None
           | Some (g1, r2) \<Rightarrow>
               (case literal '' M'' r2 of
                  None \<Rightarrow> None
                | Some r3 \<Rightarrow>
                    (let ds = takeWhile is_digit r3; r4 = dropWhile is_digit r3
                     in if ds = [] then None
                        else (case literal '': '' r4 of
                                None \<Rightarrow> None
                              | Some r5 \<Rightarrow>
                                  (let tok = takeWhile (\<lambda>c. \<not> is_space c) r5;
                                       r6 = dropWhile (\<lambda>c. \<not> is_space c) r5
                                   in if tok = [] then None
                                      else Some (g1, CHR ''M'' # ds, match_line_group r6)))))))"

section \<open>The message parser\<close>

text \<open>The counters \<^verbatim>\<open>notes\<close>, \<^verbatim>\<open>errors\<close> and \<^verbatim>\<open>warnings\<close>.\<close>

record Stats =
  notes' :: nat
  errors :: nat
  warnings :: nat

record Message =
  level :: string
  code :: string
  line :: jsnum
  message :: string

datatype ParserState = MESSAGE_LINE | DESCRIPTION_LINE | NOISE

text \<open>
  The fields of \<^verbatim>\<open>SVDConvParser\<close>: \<^verbatim>\<open>state\<close>, \<^verbatim>\<open>stats\<close>, \<^verbatim>\<open>_level\<close>,
  \<^verbatim>\<open>_code\<close> and \<^verbatim>\<open>_line\<close>.
\<close>

record SVDConvParser =
  state :: ParserState
  parser_stats :: Stats
  cur_level :: string
  cur_code :: string
  cur_line :: jsnum

text \<open>
  The constructor sets the state and the counters. It leaves \<^verbatim>\<open>_level\<close>,
  \<^verbatim>\<open>_code\<close> and \<^verbatim>\<open>_line\<close> unset; they are written by a header before a
  description reads them (lemma \<open>fields_written_by_header\<close> below), so the values given here
  are never seen.
\<close>

definition new_parser :: SVDConvParser where
  "new_parser =
     \<lparr>state = NOISE, parser_stats = \<lparr>notes' = 0, errors = 0, warnings = 0\<rparr>,
      cur_level = [], cur_code = [], cur_line = NaN\<rparr>"

text \<open>
  The exceptions: the \<^verbatim>\<open>TypeError\<close> of reading a group of a \<^verbatim>\<open>null\<close> match, and
  those raised outside the program (by the installation, by a missing required input, by
  starting the tool, by a request of the client).
\<close>

datatype error = TypeError | InstallError | InputError | ExecError | ApiError

text \<open>The three-way counter update of \<^verbatim>\<open>parseMessage\<close>.\<close>

definition count_level :: "string \<Rightarrow> Stats \<Rightarrow> Stats" where
  "count_level lv st =
     (if lv = ''info'' then st\<lparr>notes' := notes' st + 1\<rparr>
      else if lv = ''error'' then st\<lparr>errors := errors st + 1\<rparr>
      else if lv = ''warning'' then st\<lparr>warnings := warnings st + 1\<rparr>
      else st)"

text \<open>
  \<^verbatim>\<open>parseMessage(line)\<close>: the parser after the call and the value returned, or the
  \<^verbatim>\<open>TypeError\<close> raised by \<^verbatim>\<open>match[1]\<close> when the pattern does not match
  (\<^verbatim>\<open>match\<close> is then \<^verbatim>\<open>null\<close>).
\<close>

definition parseMessage :: "SVDConvParser \<Rightarrow> string \<Rightarrow> error + (SVDConvParser \<times> Message option)" where
  "parseMessage p ln =
     (let p1 = (if state p = NOISE \<and> startsWith ln ''***'' then p\<lparr>state := MESSAGE_LINE\<rparr> else p)
      in if state p1 = MESSAGE_LINE then
           (case MESSAGE_PATTERN ln of
              None \<Rightarrow> Inl TypeError
            | Some (g1, g2, g4) \<Rightarrow>
                Inr (p1\<lparr>cur_level := toLowerCase g1,
                         cur_code := g2,
                         cur_line := Number g4,
                         state := DESCRIPTION_LINE,
                         parser_stats := count_level (toLowerCase g1) (parser_stats p1)\<rparr>,
                     None))
         else if state p1 = DESCRIPTION_LINE then
           Inr (p1\<lparr>state := NOISE\<rparr>,
                Some \<lparr>level = cur_level p1, code = cur_code p1, line = cur_line p1,
                      message = trim ln\<rparr>)
         else Inr (p1, None))"

section \<open>The message aggregator\<close>

text \<open>
  \<^verbatim>\<open>Map<number, Array<Message>>\<close> as a list of entries in insertion order. Keys are
  compared as the map compares them (\<^verbatim>\<open>NaN\<close> is equal to itself).
\<close>

type_synonym msgmap = "(jsnum \<times> Message list) list"

fun map_get :: "msgmap \<Rightarrow> jsnum \<Rightarrow> Message list option" where
  "map_get [] k = None"
| "map_get ((k', v) # r) k = (if k' = k then Some v else map_get r k)"

text \<open>\<^verbatim>\<open>set\<close> keeps the place of a key that is present and appends a new one.\<close>

fun map_set :: "msgmap \<Rightarrow> jsnum \<Rightarrow> Message list \<Rightarrow> msgmap" where
  "map_set [] k v = [(k, v)]"
| "map_set ((k', v') # r) k v = (if k' = k then (k, v) # r else (k', v') # map_set r k v)"

definition map_delete :: "msgmap \<Rightarrow> jsnum \<Rightarrow> msgmap" where
  "map_delete m k = filter (\<lambda>e. fst e \<noteq> k) m"

record Result =
  messages :: msgmap
  stats :: Stats

text \<open>
  The body of \<^verbatim>\<open>if (message)\<close> in \<^verbatim>\<open>parseMessages\<close>. The array is shared with
  the map, so \<^verbatim>\<open>push\<close> changes the entry: a missing key gets a new array (entered
  with \<^verbatim>\<open>set\<close> while it is empty), a key that is present has the message appended
  to its array in place.
\<close>

definition add_message :: "msgmap \<Rightarrow> Message \<Rightarrow> msgmap" where
  "add_message m msg =
     (let ary = (case map_get m (line msg) of None \<Rightarrow> [] | Some a \<Rightarrow> a)
      in map_set m (line msg) (ary @ [msg]))"

text \<open>The \<^verbatim>\<open>for\<close> loop of \<^verbatim>\<open>parseMessages\<close>; an exception ends it.\<close>

fun parse_loop :: "SVDConvParser \<Rightarrow> msgmap \<Rightarrow> string list \<Rightarrow> error + (SVDConvParser \<times> msgmap)" where
  "parse_loop p m [] = Inr (p, m)"
| "parse_loop p m (ln # lns) =
     (case parseMessage p ln of
        Inl e \<Rightarrow> Inl e
      | Inr (p', None) \<Rightarrow> parse_loop p' m lns
      | Inr (p', Some msg) \<Rightarrow> parse_loop p' (add_message m msg) lns)"

text \<open>
  \<^verbatim>\<open>SVDConvParser.parseMessages(buffer)\<close>. The result holds the parser's own
  \<^verbatim>\<open>stats\<close> object, so it shows the counters as they are after the last line.
\<close>

definition parser_parseMessages :: "SVDConvParser \<Rightarrow> string \<Rightarrow> error + Result" where
  "parser_parseMessages p buffer =
     (case parse_loop (p\<lparr>state := NOISE\<rparr>) [] (split_nl buffer) of
        Inl e \<Rightarrow> Inl e
      | Inr (p', m) \<Rightarrow> Inr \<lparr>messages = m, stats = parser_stats p'\<rparr>)"

text \<open>\<^verbatim>\<open>SVDConv.parseMessages(input)\<close>: a new parser for every input.\<close>

definition parseMessages :: "string \<Rightarrow> error + Result" where
  "parseMessages input = parser_parseMessages new_parser input"

section \<open>The annotation batcher\<close>

text \<open>
  The annotation objects built by \<^verbatim>\<open>getAnnotations\<close>; the field \<^verbatim>\<open>message\<close> is
  \<open>ann_message\<close> here.
\<close>

record CheckRunAnnotation =
  path :: string
  start_line :: jsnum
  end_line :: jsnum
  annotation_level :: string
  ann_message :: string

text \<open>The body of \<^verbatim>\<open>if (msg)\<close>: the annotation pushed for a message popped under \<open>key\<close>.\<close>

definition make_annotation :: "string \<Rightarrow> jsnum \<Rightarrow> Message \<Rightarrow> CheckRunAnnotation" where
  "make_annotation svdPath key msg =
     (let sl = (if isNaN key then Num 0 else key);
          el = sl;
          al = (if level msg = ''info'' then ''notice''
                else if level msg = ''warning'' then ''warning''
                else ''error'')
      in \<lparr>path = svdPath, start_line = sl, end_line = el, annotation_level = al,
          ann_message = code msg @ '': '' @ message msg\<rparr>)"

text \<open>The number of entries and of messages of a map; the loop below ends on their sum.\<close>

definition total_messages :: "msgmap \<Rightarrow> nat" where
  "total_messages m = sum_list (map (\<lambda>e. length (snd e)) m)"

definition map_weight :: "msgmap \<Rightarrow> nat" where
  "map_weight m = length m + total_messages m"

text \<open>
  The \<^verbatim>\<open>while\<close> loop of \<^verbatim>\<open>getAnnotations\<close>. \<^verbatim>\<open>key\<close> is the first key of the
  map, so \<^verbatim>\<open>messages.get(key)\<close> is the array of the first entry and \<^verbatim>\<open>key\<close> is
  never undefined while the map has an entry. \<^verbatim>\<open>pop\<close> takes the last element of that
  array, in place (nothing, on an empty array); an array left empty has its key deleted.
\<close>

function getAnnotations_loop ::
  "string \<Rightarrow> CheckRunAnnotation list \<Rightarrow> msgmap \<Rightarrow> CheckRunAnnotation list \<times> msgmap" where
  "getAnnotations_loop svdPath annotations m =
     (case m of
        [] \<Rightarrow> (annotations, m)
      | (key, ary) # rest \<Rightarrow>
          if length annotations < 50 then
            (let annotations' =
                   (if ary = [] then annotations
                    else annotations @ [make_annotation svdPath key (last ary)]);
                 ary' = butlast ary;
                 m' = (if ary' = [] then map_delete ((key, ary') # rest) key
                       else (key, ary') # rest)
             in getAnnotations_loop svdPath annotations' m')
          else (annotations, m))"
  by pat_completeness auto

lemma map_weight_delete: "map_weight (map_delete m k) \<le> map_weight m"
  unfolding map_weight_def total_messages_def map_delete_def
  by (induction m) auto

termination getAnnotations_loop
proof (relation "measure (\<lambda>(p, a, m). map_weight m)", goal_cases)
  case 1
  show ?case by simp
next
  case (2 svdPath annotations m e rest key ary annotations' ary' m')
  have "map_weight m' < map_weight ((key, ary) # rest)"
  proof (cases "ary' = []")
    case True
    have "map_delete ((key, ary') # rest) key = map_delete rest key"
      by (simp add: map_delete_def)
    then have "map_weight m' \<le> map_weight rest"
      using 2 True map_weight_delete [of rest key] by simp
    then show ?thesis
      by (simp add: map_weight_def total_messages_def)
  next
    case False
    have a: "ary' = butlast ary" using 2 by simp
    have m': "m' = (key, ary') # rest" using 2 False by simp
    have "ary \<noteq> []" using False a by auto
    then have "length ary' < length ary" using a by simp
    then show ?thesis unfolding m'
      by (simp add: map_weight_def total_messages_def)
  qed
  moreover have "m = (key, ary) # rest" using 2 by simp
  ultimately show ?case by simp
qed

declare getAnnotations_loop.simps [simp del]

text \<open>\<^verbatim>\<open>getAnnotations\<close>: the batch, or \<^verbatim>\<open>null\<close>, and the map as the call leaves it.\<close>

definition getAnnotations :: "string \<Rightarrow> msgmap \<Rightarrow> CheckRunAnnotation list option \<times> msgmap" where
  "getAnnotations svdPath m =
     (case getAnnotations_loop svdPath [] m of
        (annotations, m') \<Rightarrow> (if annotations = [] then None else Some annotations, m'))"

lemma loop_Nil: "getAnnotations_loop p a [] = (a, [])"
  by (subst getAnnotations_loop.simps) simp

lemma loop_full: "\<not> length a < 50 \<Longrightarrow> getAnnotations_loop p a m = (a, m)"
  by (subst getAnnotations_loop.simps) (simp split: list.splits prod.splits)

lemma loop_step:
  "length a < 50 \<Longrightarrow>
   getAnnotations_loop p a ((k, ary) # rest) =
     getAnnotations_loop p
       (if ary = [] then a else a @ [make_annotation p k (last ary)])
       (if butlast ary = [] then map_delete ((k, butlast ary) # rest) k else (k, butlast ary) # rest)"
  by (subst getAnnotations_loop.simps) (simp add: Let_def)

lemma loop_weight:
  "map_weight (snd (getAnnotations_loop p a m)) \<le> map_weight m
   \<and> (length a < 50 \<longrightarrow> m \<noteq> [] \<longrightarrow> map_weight (snd (getAnnotations_loop p a m)) < map_weight m)"
proof (induction p a m rule: getAnnotations_loop.induct)
  case (1 p a m)
  show ?case
  proof (cases m)
    case Nil
    then show ?thesis by (simp add: loop_Nil)
  next
    case (Cons e rest)
    obtain k ary where e: "e = (k, ary)" by (cases e)
    show ?thesis
    proof (cases "length a < 50")
      case False
      then show ?thesis by (simp add: loop_full)
    next
      case True
      let ?a' = "if ary = [] then a else a @ [make_annotation p k (last ary)]"
      let ?m' = "if butlast ary = [] then map_delete ((k, butlast ary) # rest) k else (k, butlast ary) # rest"
      have step: "getAnnotations_loop p a m = getAnnotations_loop p ?a' ?m'"
        using loop_step [OF True] Cons e by simp
      have w': "map_weight ?m' < map_weight m"
      proof (cases "butlast ary = []")
        case True
        have "map_delete ((k, butlast ary) # rest) k = map_delete rest k"
          by (simp add: map_delete_def)
        then have "map_weight ?m' \<le> map_weight rest"
          using True map_weight_delete [of rest k] by simp
        then show ?thesis using Cons e by (simp add: map_weight_def total_messages_def)
      next
        case False
        then obtain ys y where "ary = ys @ [y]" by (cases ary rule: rev_cases) auto
        then show ?thesis using False Cons e by (simp add: map_weight_def total_messages_def)
      qed
      have "map_weight (snd (getAnnotations_loop p ?a' ?m')) \<le> map_weight ?m'"
        using "1.IH" [OF Cons e [symmetric] True refl refl refl] by blast
      then show ?thesis unfolding step using w' by simp
    qed
  qed
qed

lemma getAnnotations_weight:
  "m \<noteq> [] \<Longrightarrow> getAnnotations p m = (b, m') \<Longrightarrow> map_weight m' < map_weight m"
  using loop_weight [of p "[]" m]
  by (auto simp: getAnnotations_def split: prod.splits)

section \<open>The upload orchestrator\<close>

text \<open>
  The requests sent to the check-run interface: \<^verbatim>\<open>checks.create\<close>, \<^verbatim>\<open>checks.update\<close>
  with a batch of annotations, and \<^verbatim>\<open>checks.update\<close> with status \<^verbatim>\<open>completed\<close> and a
  conclusion. The client is outside the program: \<open>client n\<close> says whether request
  number \<open>n\<close> (counted from 0) succeeds; a request that fails raises \<open>ApiError\<close>.
  Every function returns the requests sent so far with its outcome.
\<close>

datatype request = ChecksCreate | ChecksUpdate "CheckRunAnnotation list" | ChecksCompleted string

text \<open>The \<^verbatim>\<open>while\<close> loop of \<^verbatim>\<open>uploadResult\<close>; a \<^verbatim>\<open>null\<close> bucket breaks it.\<close>

function upload_loop ::
  "(nat \<Rightarrow> bool) \<Rightarrow> string \<Rightarrow> msgmap \<Rightarrow> request list \<Rightarrow> (error + unit) \<times> request list" where
  "upload_loop client svdPath m sent =
     (if m \<noteq> [] then
        (case getAnnotations svdPath m of
           (None, m') \<Rightarrow> (Inr (), sent)
         | (Some bucket, m') \<Rightarrow>
             if client (length sent)
             then upload_loop client svdPath m' (sent @ [ChecksUpdate bucket])
             else (Inl ApiError, sent @ [ChecksUpdate bucket]))
      else (Inr (), sent))"
  by pat_completeness auto
termination
proof (relation "measure (\<lambda>(c, p, m, s). map_weight m)", goal_cases)
  case 1
  show ?case by simp
next
  case (2 client svdPath m sent x m' bucket)
  then have "getAnnotations svdPath m = (Some bucket, m')" by simp
  from getAnnotations_weight [OF 2(1) this] show ?case by simp
qed

declare upload_loop.simps [simp del]

text \<open>The \<^verbatim>\<open>catch\<close> block of \<^verbatim>\<open>uploadResult\<close>; its own request is not guarded.\<close>

definition cancel_run :: "(nat \<Rightarrow> bool) \<Rightarrow> request list \<Rightarrow> (error + unit) \<times> request list" where
  "cancel_run client sent =
     (if client (length sent) then Inr () else Inl ApiError, sent @ [ChecksCompleted ''cancelled''])"

text \<open>
  \<^verbatim>\<open>uploadResult\<close>: the check run is created outside the \<^verbatim>\<open>try\<close>; the loop and the
  final update are inside it.
\<close>

definition uploadResult :: "(nat \<Rightarrow> bool) \<Rightarrow> Result \<Rightarrow> string \<Rightarrow> (error + unit) \<times> request list" where
  "uploadResult client result svdPath =
     (if \<not> client 0 then (Inl ApiError, [ChecksCreate])
      else
        (case upload_loop client svdPath (messages result) [ChecksCreate] of
           (Inl e, sent) \<Rightarrow> cancel_run client sent
         | (Inr u, sent) \<Rightarrow>
             if client (length sent) then (Inr (), sent @ [ChecksCompleted ''neutral''])
             else cancel_run client (sent @ [ChecksCompleted ''neutral''])))"

section \<open>The entry point\<close>

text \<open>
  What \<^verbatim>\<open>main\<close> takes from outside: the result of \<^verbatim>\<open>install()\<close> (the path of the
  tool, or the exception), \<^verbatim>\<open>core.getInput(name, { required: true })\<close>, the tool
  run by \<^verbatim>\<open>exec.exec\<close> (the text heard on standard output and on standard error, or
  the exception when the tool cannot be started; the exit code is ignored), and the
  client. Logging has no effect on the control flow and is left out.
\<close>

record Env =
  install :: "error + string"
  getInput :: "string \<Rightarrow> error + string"
  exec :: "string \<Rightarrow> string list \<Rightarrow> error + (string \<times> string)"
  client :: "nat \<Rightarrow> bool"

text \<open>\<^verbatim>\<open>SVDConv.run(path)\<close>: \<open>Inr None\<close> is \<^verbatim>\<open>null\<close>.\<close>

definition run :: "Env \<Rightarrow> string \<Rightarrow> string \<Rightarrow> error + Result option" where
  "run env executable svdPath =
     (case exec env executable [svdPath] of
        Inl e \<Rightarrow> Inl e
      | Inr (stdout, stderr) \<Rightarrow>
          if stderr \<noteq> [] then Inr None
          else (case parseMessages stdout of
                  Inl e \<Rightarrow> Inl e
                | Inr result \<Rightarrow> Inr (Some result)))"

text \<open>
  \<^verbatim>\<open>main()\<close>: \<open>Inr ()\<close> when the promise resolves, \<open>Inl e\<close> when it is rejected
  with \<open>e\<close>. \<^verbatim>\<open>main\<close> itself never calls \<^verbatim>\<open>core.setFailed\<close>.
\<close>

definition main :: "Env \<Rightarrow> (error + unit) \<times> request list" where
  "main env =
     (case install env of
        Inl e \<Rightarrow> (Inl e, [])
      | Inr svdConvPath \<Rightarrow>
          (case getInput env ''path'' of
             Inl e \<Rightarrow> (Inl e, [])
           | Inr svdPath \<Rightarrow>
               (case getInput env ''token'' of
                  Inl e \<Rightarrow> (Inl e, [])
                | Inr githubToken \<Rightarrow>
                    (case run env svdConvPath svdPath of
                       Inl e \<Rightarrow> (Inl e, [])
                     | Inr None \<Rightarrow> (Inr (), [])
                     | Inr (Some result) \<Rightarrow> uploadResult (client env) result svdPath))))"

text \<open>
  The step fails when the promise of \<^verbatim>\<open>main\<close> is rejected (on a runtime that ends
  the process on an unhandled rejection); nothing else in \<^verbatim>\<open>main\<close> marks a failure.
\<close>

definition step_failed :: "(error + unit) \<times> request list \<Rightarrow> bool" where
  "step_failed res = (case fst res of Inl e \<Rightarrow> True | Inr u \<Rightarrow> False)"

section \<open>Notions of the specification\<close>

text \<open>
  The header lines of a severity among some lines: the lines the header pattern
  matches with that keyword as group 1.
\<close>

definition is_header :: "string \<Rightarrow> string \<Rightarrow> bool" where
  "is_header sev ln =
     (case MESSAGE_PATTERN ln of None \<Rightarrow> False | Some (g1, g2, g4) \<Rightarrow> g1 = sev)"

definition count_headers :: "string \<Rightarrow> string list \<Rightarrow> nat" where
  "count_headers sev lns = length (filter (is_header sev) lns)"

text \<open>
  The lines the parser reads as headers when it starts idle: a line that begins with
  three asterisks, unless it comes right after such a header (it is then that header's
  description).
\<close>

fun header_lines :: "string list \<Rightarrow> string list" where
  "header_lines [] = []"
| "header_lines [l] = (if startsWith l ''***'' then [l] else [])"
| "header_lines (l # d # ls) =
     (if startsWith l ''***'' then l # header_lines ls else header_lines (d # ls))"

text \<open>
  The number \<open>N\<close> of a line that ends in \<^verbatim>\<open> (Line N)\<close>, as the specification's
  format \<^verbatim>\<open><free text>[ (Line <digits>)]\<close> reads a header.
\<close>

definition suffix_line_number :: "string \<Rightarrow> nat option" where
  "suffix_line_number ln =
     (case rev ln of
        [] \<Rightarrow> None
      | c # r \<Rightarrow>
          (let ds = takeWhile is_digit r; r' = dropWhile is_digit r
           in if c = CHR '')'' \<and> ds \<noteq> [] \<and> startsWith r' (rev '' (Line '')
              then Some (digits_value (rev ds)) else None))"

text \<open>
  A grouped-messages map as the program builds it: every key occurs once (as in any
  \<^verbatim>\<open>Map\<close>) and every array holds a message.
\<close>

definition grouped :: "msgmap \<Rightarrow> bool" where
  "grouped m = (distinct (map fst m) \<and> list_all (\<lambda>e. snd e \<noteq> []) m)"

section \<open>Properties of the annotation batcher\<close>

lemma map_delete_head: "k \<notin> fst ` set rest \<Longrightarrow> map_delete ((k, v) # rest) k = rest"
  by (induction rest) (auto simp: map_delete_def)

lemma loop_step_grouped:
  assumes "length a < 50" "grouped ((k, ary) # rest)"
  shows "getAnnotations_loop p a ((k, ary) # rest) =
     getAnnotations_loop p (a @ [make_annotation p k (last ary)])
       (if butlast ary = [] then rest else (k, butlast ary) # rest)"
  using assms by (simp add: loop_step grouped_def map_delete_head)

lemma total_Cons: "total_messages ((k, ary) # rest) = length ary + total_messages rest"
  by (simp add: total_messages_def)

lemma total_Nil: "total_messages [] = 0"
  by (simp add: total_messages_def)

lemma grouped_total: "grouped m \<Longrightarrow> (total_messages m = 0) = (m = [])"
  by (cases m) (auto simp: grouped_def total_messages_def)

lemma grouped_rest: "grouped (e # rest) \<Longrightarrow> grouped rest"
  by (simp add: grouped_def)

lemma grouped_butlast: "grouped ((k, ary) # rest) \<Longrightarrow> butlast ary \<noteq> [] \<Longrightarrow> grouped ((k, butlast ary) # rest)"
  by (simp add: grouped_def)

lemma loop_count:
  "grouped m \<Longrightarrow> length a \<le> 50 \<Longrightarrow>
     length (fst (getAnnotations_loop p a m)) = length a + min (50 - length a) (total_messages m)
   \<and> total_messages (snd (getAnnotations_loop p a m)) = total_messages m - min (50 - length a) (total_messages m)
   \<and> grouped (snd (getAnnotations_loop p a m))"
proof (induction "map_weight m" arbitrary: a m rule: less_induct)
  case less
  show ?case
  proof (cases m)
    case Nil
    then show ?thesis by (simp add: loop_Nil total_Nil grouped_def)
  next
    case (Cons e rest)
    obtain k ary where e: "e = (k, ary)" by (cases e)
    have ne: "ary \<noteq> []" using less.prems Cons e by (simp add: grouped_def)
    show ?thesis
    proof (cases "length a < 50")
      case False
      then show ?thesis using less.prems by (simp add: loop_full)
    next
      case True
      let ?a' = "a @ [make_annotation p k (last ary)]"
      let ?m' = "if butlast ary = [] then rest else (k, butlast ary) # rest"
      have step: "getAnnotations_loop p a m = getAnnotations_loop p ?a' ?m'"
        using loop_step_grouped [OF True] less.prems(1) Cons e by simp
      have g': "grouped ?m'"
        using less.prems(1) Cons e grouped_rest grouped_butlast by auto
      obtain ys y where lb: "ary = ys @ [y]" using ne by (cases ary rule: rev_cases) auto
      have t': "total_messages m = Suc (total_messages ?m')"
        using lb Cons e by (auto simp: total_Cons)
      have w': "map_weight ?m' < map_weight m"
        using lb Cons e by (auto simp: map_weight_def total_Cons)
      have la': "length ?a' \<le> 50" using True by simp
      define n where "n = total_messages ?m'"
      define r where "r = getAnnotations_loop p ?a' ?m'"
      have ih: "length (fst r) = Suc (length a) + min (50 - Suc (length a)) n"
               "total_messages (snd r) = n - min (50 - Suc (length a)) n"
               "grouped (snd r)"
        using less.hyps [OF w' g' la'] unfolding n_def r_def by simp_all
      have "length (fst r) = length a + min (50 - length a) (Suc n)"
        using ih(1) True by arith
      moreover have "total_messages (snd r) = Suc n - min (50 - length a) (Suc n)"
        using ih(2) True by arith
      ultimately show ?thesis
        using ih(3) unfolding step t' n_def r_def by simp
    qed
  qed
qed


lemma getAnnotations_grouped:
  assumes "grouped m"
  shows "(fst (getAnnotations p m) = None) = (m = [])"
    and "\<And>b. fst (getAnnotations p m) = Some b \<Longrightarrow> length b = min 50 (total_messages m)"
    and "total_messages (snd (getAnnotations p m)) = total_messages m - 50"
    and "grouped (snd (getAnnotations p m))"
proof -
  obtain b m' where r: "getAnnotations_loop p [] m = (b, m')"
    by (cases "getAnnotations_loop p [] m")
  have c: "length b = min 50 (total_messages m)"
          "total_messages m' = total_messages m - min 50 (total_messages m)"
          "grouped m'"
    using loop_count [OF assms, where a = "[]" and p = p] r by simp_all
  have "(b = []) = (total_messages m = 0)"
    using c(1) by (cases b) (auto simp: min_def split: if_splits)
  then have "(b = []) = (m = [])"
    using grouped_total [OF assms] by simp
  then show "(fst (getAnnotations p m) = None) = (m = [])"
    by (simp add: getAnnotations_def r)
  show "\<And>b'. fst (getAnnotations p m) = Some b' \<Longrightarrow> length b' = min 50 (total_messages m)"
    using c(1) by (auto simp: getAnnotations_def r split: if_splits)
  show "total_messages (snd (getAnnotations p m)) = total_messages m - 50"
    using c(2) by (simp add: getAnnotations_def r)
  show "grouped (snd (getAnnotations p m))"
    using c(3) by (simp add: getAnnotations_def r)
qed

lemma drain_calls:
  "grouped m \<Longrightarrow>
     grouped (((\<lambda>x. snd (getAnnotations p x)) ^^ k) m)
   \<and> total_messages (((\<lambda>x. snd (getAnnotations p x)) ^^ k) m) = total_messages m - 50 * k"
proof (induction k)
  case 0
  then show ?case by simp
next
  case (Suc k)
  then show ?case by (simp add: getAnnotations_grouped(3,4))
qed

text \<open>
  Claim C1. On a grouped-messages map, one call of \<open>getAnnotations\<close> returns
  \<^verbatim>\<open>null\<close> exactly when the map is empty, and otherwise a batch of at least one and
  at most 50 annotations; and when the map holds \<open>n > 0\<close> messages, the map left by
  \<open>k\<close> calls in a row is empty exactly when \<open>k\<close> is at least \<open>n / 50\<close> rounded up,
  so that the map is drained by call number \<open>(n + 49) div 50\<close> and by no earlier one.
\<close>

theorem getAnnotations_batches:
  assumes "grouped m"
  shows "(case fst (getAnnotations p m) of
            None \<Rightarrow> m = []
          | Some b \<Rightarrow> m \<noteq> [] \<and> b \<noteq> [] \<and> length b \<le> 50)
       \<and> (0 < total_messages m \<longrightarrow>
            ((((\<lambda>x. snd (getAnnotations p x)) ^^ k) m = []) = ((total_messages m + 49) div 50 \<le> k)))"
proof -
  have a: "(case fst (getAnnotations p m) of
            None \<Rightarrow> m = []
          | Some b \<Rightarrow> m \<noteq> [] \<and> b \<noteq> [] \<and> length b \<le> 50)"
  proof (cases "fst (getAnnotations p m)")
    case None
    then show ?thesis using getAnnotations_grouped(1) [OF assms, where p = p] by simp
  next
    case (Some b)
    have "m \<noteq> []" using Some getAnnotations_grouped(1) [OF assms, where p = p] by auto
    moreover have "length b = min 50 (total_messages m)"
      using getAnnotations_grouped(2) [OF assms Some] .
    moreover have "0 < total_messages m"
      using \<open>m \<noteq> []\<close> grouped_total [OF assms] by simp
    ultimately show ?thesis using Some by auto
  qed
  let ?mk = "((\<lambda>x. snd (getAnnotations p x)) ^^ k) m"
  have gk: "grouped ?mk" and tk: "total_messages ?mk = total_messages m - 50 * k"
    using drain_calls [OF assms, where p = p and k = k] by simp_all
  have "(?mk = []) = (total_messages ?mk = 0)"
    using grouped_total [OF gk] by simp
  also have "\<dots> = (total_messages m \<le> 50 * k)"
    unfolding tk by simp
  also have "\<dots> = ((total_messages m + 49) div 50 \<le> k)"
    by arith
  finally show ?thesis using a by simp
qed

text \<open>
  The theorem at a map of 51 messages on one line: the first call returns a batch and
  leaves a message, the second call empties the map.
\<close>

theorem getAnnotations_batches_witness:
  "grouped [(Num 7, replicate 51 \<lparr>level = ''info'', code = ''M1'', line = Num 7, message = ''x''\<rparr>)]
   \<and> fst (getAnnotations ''a.svd'' [(Num 7, replicate 51 \<lparr>level = ''info'', code = ''M1'', line = Num 7, message = ''x''\<rparr>)]) \<noteq> None
   \<and> snd (getAnnotations ''a.svd'' [(Num 7, replicate 51 \<lparr>level = ''info'', code = ''M1'', line = Num 7, message = ''x''\<rparr>)]) \<noteq> []
   \<and> ((\<lambda>x. snd (getAnnotations ''a.svd'' x)) ^^ 2) [(Num 7, replicate 51 \<lparr>level = ''info'', code = ''M1'', line = Num 7, message = ''x''\<rparr>)] = []"
proof -
  let ?m = "[(Num 7, replicate 51 \<lparr>level = ''info'', code = ''M1'', line = Num 7, message = ''x''\<rparr>)]"
  have g: "grouped ?m" by (simp add: grouped_def)
  have t: "total_messages ?m = 51" by (simp add: total_messages_def)
  have "fst (getAnnotations ''a.svd'' ?m) \<noteq> None"
    using getAnnotations_batches [OF g, where p = "''a.svd''" and k = 0] by (auto split: option.splits)
  moreover have "snd (getAnnotations ''a.svd'' ?m) \<noteq> []"
    using getAnnotations_batches [OF g, where p = "''a.svd''" and k = 1] t by simp
  moreover have "((\<lambda>x. snd (getAnnotations ''a.svd'' x)) ^^ 2) ?m = []"
    using getAnnotations_batches [OF g, where p = "''a.svd''" and k = 2] t by simp
  ultimately show ?thesis using g by simp
qed


section \<open>The invariant of the grouped messages\<close>

lemma map_set_keys: "fst ` set (map_set m k v) = insert k (fst ` set m)"
  by (induction m) force+

lemma map_set_distinct: "distinct (map fst m) \<Longrightarrow> distinct (map fst (map_set m k v))"
proof (induction m)
  case Nil
  then show ?case by simp
next
  case (Cons e m)
  obtain k' v' where e: "e = (k', v')" by (cases e)
  have "k' \<noteq> k \<Longrightarrow> k' \<notin> fst ` set (map_set m k v)"
    using Cons.prems e by (simp add: map_set_keys)
  then show ?case using Cons e by auto
qed

lemma map_set_nonempty:
  "list_all (\<lambda>e. snd e \<noteq> []) m \<Longrightarrow> v \<noteq> [] \<Longrightarrow> list_all (\<lambda>e. snd e \<noteq> []) (map_set m k v)"
  by (induction m) auto

lemma add_message_grouped: "grouped m \<Longrightarrow> grouped (add_message m msg)"
  by (simp add: grouped_def add_message_def map_set_distinct map_set_nonempty)

lemma parse_loop_grouped:
  "grouped m \<Longrightarrow> parse_loop p m lns = Inr (p', m') \<Longrightarrow> grouped m'"
proof (induction lns arbitrary: p m)
  case Nil
  then show ?case by simp
next
  case (Cons ln lns)
  then show ?case
    by (auto split: sum.splits option.splits prod.splits dest: add_message_grouped)
qed

text \<open>
  Claim C10. Every key of the grouped-messages map has a non-empty array (and occurs
  once): the map returned by \<open>parseMessages\<close> is such a map, and a call of
  \<open>getAnnotations\<close> on such a map leaves such a map, the key of an array that became
  empty being deleted.
\<close>

theorem grouped_invariant:
  "(parseMessages input = Inr r \<longrightarrow> grouped (messages r))
   \<and> (grouped m \<longrightarrow> grouped (snd (getAnnotations p m)))"
proof -
  have "grouped (messages r)" if "parseMessages input = Inr r"
  proof -
    let ?l = "parse_loop (new_parser\<lparr>state := NOISE\<rparr>) [] (split_nl input)"
    from that obtain p' m' where l: "?l = Inr (p', m')"
      and r: "r = \<lparr>messages = m', stats = parser_stats p'\<rparr>"
      unfolding parseMessages_def parser_parseMessages_def
      by (cases ?l) auto
    have "grouped []" by (simp add: grouped_def)
    then have "grouped m'" using l by (rule parse_loop_grouped)
    then show ?thesis using r by simp
  qed
  then show ?thesis using getAnnotations_grouped(4) by blast
qed

lemma map_delete_subset: "set (map_delete m k) \<subseteq> set m"
  by (auto simp: map_delete_def)

lemma loop_members:
  "a \<in> set (fst (getAnnotations_loop p anns m)) \<Longrightarrow>
   a \<in> set anns \<or> (\<exists>k ary msg. (k, ary) \<in> set m \<and> msg \<in> set ary \<and> a = make_annotation p k msg)"
proof (induction "map_weight m" arbitrary: anns m rule: less_induct)
  case less
  show ?case
  proof (cases m)
    case Nil
    then show ?thesis using less.prems by (simp add: loop_Nil)
  next
    case (Cons e rest)
    obtain k ary where e: "e = (k, ary)" by (cases e)
    show ?thesis
    proof (cases "length anns < 50")
      case False
      then show ?thesis using less.prems by (simp add: loop_full)
    next
      case True
      let ?a' = "if ary = [] then anns else anns @ [make_annotation p k (last ary)]"
      let ?m' = "if butlast ary = [] then map_delete ((k, butlast ary) # rest) k else (k, butlast ary) # rest"
      have step: "getAnnotations_loop p anns m = getAnnotations_loop p ?a' ?m'"
        using loop_step [OF True] Cons e by simp
      have w': "map_weight ?m' < map_weight m"
      proof (cases "butlast ary = []")
        case True
        have "map_delete ((k, butlast ary) # rest) k = map_delete rest k"
          by (simp add: map_delete_def)
        then have "map_weight ?m' \<le> map_weight rest"
          using True map_weight_delete [of rest k] by simp
        then show ?thesis using Cons e by (simp add: map_weight_def total_Cons)
      next
        case False
        then obtain ys y where "ary = ys @ [y]" by (cases ary rule: rev_cases) auto
        then show ?thesis using False Cons e by (simp add: map_weight_def total_Cons)
      qed
      have sub: "\<And>k' ary' msg. (k', ary') \<in> set ?m' \<Longrightarrow> msg \<in> set ary' \<Longrightarrow>
                   \<exists>ary''. (k', ary'') \<in> set m \<and> msg \<in> set ary''"
      proof -
        fix k' ary' msg assume h: "(k', ary') \<in> set ?m'" "msg \<in> set ary'"
        then consider "(k', ary') \<in> set rest" | "k' = k" "ary' = butlast ary"
          using map_delete_subset [of "(k, butlast ary) # rest" k] by (auto split: if_splits)
        then show "\<exists>ary''. (k', ary'') \<in> set m \<and> msg \<in> set ary''"
        proof cases
          case 1
          then show ?thesis using h Cons by auto
        next
          case 2
          then have "msg \<in> set ary" using h(2) by (auto dest: in_set_butlastD)
          then show ?thesis using 2 Cons e by auto
        qed
      qed
      have "a \<in> set ?a' \<or> (\<exists>k' ary' msg. (k', ary') \<in> set ?m' \<and> msg \<in> set ary' \<and> a = make_annotation p k' msg)"
        using less.hyps [OF w'] less.prems unfolding step by blast
      then show ?thesis
      proof
        assume "a \<in> set ?a'"
        then consider "a \<in> set anns" | "ary \<noteq> []" "a = make_annotation p k (last ary)"
          by (auto split: if_splits)
        then show ?thesis
        proof cases
          case 1 then show ?thesis by simp
        next
          case 2
          then have "last ary \<in> set ary" by simp
          moreover have "(k, ary) \<in> set m" using Cons e by simp
          ultimately show ?thesis using 2(2) by blast
        qed
      next
        assume "\<exists>k' ary' msg. (k', ary') \<in> set ?m' \<and> msg \<in> set ary' \<and> a = make_annotation p k' msg"
        then obtain k' ary' msg where h: "(k', ary') \<in> set ?m'" "msg \<in> set ary'" "a = make_annotation p k' msg"
          by blast
        from sub [OF h(1,2)] h(3) show ?thesis by blast
      qed
    qed
  qed
qed


text \<open>
  The theorem at two diagnostics on line 3: the aggregated map has one key with both
  messages, and a call of the batcher leaves a grouped map.
\<close>

theorem grouped_invariant_witness:
  "parseMessages ''*** INFO M1: a.svd (Line 3)\<newline>  first\<newline>*** ERROR M2: a.svd (Line 3)\<newline>  second'' =
     Inr \<lparr>messages =
            [(Num 3, [\<lparr>level = ''info'', code = ''M1'', line = Num 3, message = ''first''\<rparr>,
                      \<lparr>level = ''error'', code = ''M2'', line = Num 3, message = ''second''\<rparr>])],
          stats = \<lparr>notes' = 1, errors = 1, warnings = 0\<rparr>\<rparr>
   \<and> grouped [(Num 3, [\<lparr>level = ''info'', code = ''M1'', line = Num 3, message = ''first''\<rparr>,
                        \<lparr>level = ''error'', code = ''M2'', line = Num 3, message = ''second''\<rparr>])]
   \<and> grouped (snd (getAnnotations ''a.svd''
        [(Num 3, [\<lparr>level = ''info'', code = ''M1'', line = Num 3, message = ''first''\<rparr>,
                  \<lparr>level = ''error'', code = ''M2'', line = Num 3, message = ''second''\<rparr>])]))"
proof -
  let ?input = "''*** INFO M1: a.svd (Line 3)\<newline>  first\<newline>*** ERROR M2: a.svd (Line 3)\<newline>  second''"
  let ?m = "[(Num 3, [\<lparr>level = ''info'', code = ''M1'', line = Num 3, message = ''first''\<rparr>,
                      \<lparr>level = ''error'', code = ''M2'', line = Num 3, message = ''second''\<rparr>])]"
  let ?r = "\<lparr>messages = ?m, stats = \<lparr>notes' = 1, errors = 1, warnings = 0\<rparr>\<rparr>"
  have p: "parseMessages ?input = Inr ?r" by code_simp
  have g: "grouped (messages ?r)"
    using grouped_invariant [where input = ?input and r = ?r] p by blast
  then have g': "grouped ?m" by simp
  have "grouped (snd (getAnnotations ''a.svd'' ?m))"
    using grouped_invariant [where m = ?m and p = "''a.svd''"] g' by blast
  then show ?thesis using p g' by simp
qed


section \<open>The annotation of a message\<close>

lemma getAnnotations_single:
  "getAnnotations p [(k, [msg])] = (Some [make_annotation p k msg], [])"
  by (simp add: getAnnotations_def loop_step loop_Nil map_delete_def)

text \<open>
  Claim C6. Whatever the key and the message, the batcher turns a message into an
  annotation whose level is \<^verbatim>\<open>notice\<close> for \<^verbatim>\<open>info\<close>, \<^verbatim>\<open>warning\<close> for
  \<^verbatim>\<open>warning\<close> and \<^verbatim>\<open>error\<close> for any other level, and whose text is the code, a
  colon and a space, and the message text. This is shown for the map holding one
  message, and for every annotation of the batch taken from any map.
\<close>

theorem annotation_of_message:
  "getAnnotations p [(k, [msg])] =
     (Some [\<lparr>path = p,
             start_line = (if isNaN k then Num 0 else k),
             end_line = (if isNaN k then Num 0 else k),
             annotation_level =
               (if level msg = ''info'' then ''notice''
                else if level msg = ''warning'' then ''warning''
                else ''error''),
             ann_message = code msg @ '': '' @ message msg\<rparr>], [])
   \<and> (\<forall>a \<in> set (fst (getAnnotations_loop p [] m)).
         \<exists>k' ary msg'. (k', ary) \<in> set m \<and> msg' \<in> set ary
           \<and> annotation_level a =
               (if level msg' = ''info'' then ''notice''
                else if level msg' = ''warning'' then ''warning''
                else ''error'')
           \<and> ann_message a = code msg' @ '': '' @ message msg')"
proof -
  have "\<exists>k' ary msg'. (k', ary) \<in> set m \<and> msg' \<in> set ary
           \<and> annotation_level a =
               (if level msg' = ''info'' then ''notice''
                else if level msg' = ''warning'' then ''warning''
                else ''error'')
           \<and> ann_message a = code msg' @ '': '' @ message msg'"
    if "a \<in> set (fst (getAnnotations_loop p [] m))" for a
  proof -
    from loop_members [OF that] obtain k' ary msg'
      where h: "(k', ary) \<in> set m" "msg' \<in> set ary" "a = make_annotation p k' msg'"
      by auto
    have "annotation_level a =
               (if level msg' = ''info'' then ''notice''
                else if level msg' = ''warning'' then ''warning''
                else ''error'')"
      and "ann_message a = code msg' @ '': '' @ message msg'"
      unfolding h(3) by (simp_all add: make_annotation_def Let_def)
    then show ?thesis using h(1,2) by blast
  qed
  then show ?thesis
    by (simp add: getAnnotations_single make_annotation_def Let_def)
qed

text \<open>
  The theorem at a map of two lines: the annotation of the warning on line 3 is in the
  batch and comes from a message of the map.
\<close>

theorem annotation_of_message_witness:
  "\<lparr>path = ''a.svd'', start_line = Num 3, end_line = Num 3, annotation_level = ''warning'',
     ann_message = ''M3: z''\<rparr>
     \<in> set (fst (getAnnotations_loop ''a.svd'' []
          [(NaN, [\<lparr>level = ''error'', code = ''M2'', line = NaN, message = ''y''\<rparr>]),
           (Num 3, [\<lparr>level = ''warning'', code = ''M3'', line = Num 3, message = ''z''\<rparr>])]))
   \<and> (\<exists>k' ary msg'.
         (k', ary) \<in> set [(NaN, [\<lparr>level = ''error'', code = ''M2'', line = NaN, message = ''y''\<rparr>]),
                           (Num 3, [\<lparr>level = ''warning'', code = ''M3'', line = Num 3, message = ''z''\<rparr>])]
         \<and> msg' \<in> set ary
         \<and> ''warning'' =
               (if level msg' = ''info'' then ''notice''
                else if level msg' = ''warning'' then ''warning''
                else ''error'')
         \<and> ''M3: z'' = code msg' @ '': '' @ message msg')"
proof -
  let ?m = "[(NaN, [\<lparr>level = ''error'', code = ''M2'', line = NaN, message = ''y''\<rparr>]),
             (Num 3, [\<lparr>level = ''warning'', code = ''M3'', line = Num 3, message = ''z''\<rparr>])]"
  let ?a = "\<lparr>path = ''a.svd'', start_line = Num 3, end_line = Num 3, annotation_level = ''warning'',
              ann_message = ''M3: z''\<rparr>"
  have mem: "?a \<in> set (fst (getAnnotations_loop ''a.svd'' [] ?m))"
    by (simp add: loop_step loop_Nil map_delete_def make_annotation_def Let_def)
  from annotation_of_message [where p = "''a.svd''" and m = ?m, THEN conjunct2, THEN bspec, OF mem]
  show ?thesis using mem by simp
qed


section \<open>Properties of the parser and the aggregator\<close>

lemma literal_append: "literal p (p @ s) = Some s"
  by (induction p) auto

lemma literal_Some: "literal p s = Some r \<Longrightarrow> s = p @ r"
  by (induction p s rule: literal.induct) (auto split: if_splits)

lemma startsWith_append: "startsWith (p @ s) p"
  by (induction p) auto

lemma pattern_marker: "MESSAGE_PATTERN ln = Some g \<Longrightarrow> startsWith ln ''***''"
proof -
  assume "MESSAGE_PATTERN ln = Some g"
  then obtain r where "literal ''*** '' ln = Some r"
    by (auto simp: MESSAGE_PATTERN_def split: option.splits)
  then have "ln = ''*** '' @ r" by (rule literal_Some)
  then show ?thesis by simp
qed

lemma match_severity_Some:
  "match_severity s = Some (g1, r) \<Longrightarrow> g1 \<in> {''INFO'', ''ERROR'', ''WARNING''}"
  by (auto simp: match_severity_def split: option.splits)

lemma pattern_severity:
  "MESSAGE_PATTERN ln = Some (g1, g2, g4) \<Longrightarrow> g1 \<in> {''INFO'', ''ERROR'', ''WARNING''}"
  by (auto simp: MESSAGE_PATTERN_def Let_def split: option.splits if_splits dest: match_severity_Some)

lemma parseMessage_header:
  assumes "state p = NOISE" "MESSAGE_PATTERN h = Some (g1, g2, g4)"
  shows "parseMessage p h =
     Inr (p\<lparr>state := DESCRIPTION_LINE, cur_level := toLowerCase g1, cur_code := g2,
            cur_line := Number g4,
            parser_stats := count_level (toLowerCase g1) (parser_stats p)\<rparr>, None)"
  using assms pattern_marker [OF assms(2)] by (simp add: parseMessage_def)

lemma parseMessage_description:
  assumes "state p = DESCRIPTION_LINE"
  shows "parseMessage p d =
     Inr (p\<lparr>state := NOISE\<rparr>,
          Some \<lparr>level = cur_level p, code = cur_code p, line = cur_line p, message = trim d\<rparr>)"
  using assms by (simp add: parseMessage_def)

lemma parseMessage_noise:
  assumes "state p = NOISE" "\<not> startsWith l ''***''"
  shows "parseMessage p l = Inr (p, None)"
  using assms by (simp add: parseMessage_def)

lemma parseMessage_malformed:
  assumes "state p = NOISE" "startsWith l ''***''" "MESSAGE_PATTERN l = None"
  shows "parseMessage p l = Inl TypeError"
  using assms by (simp add: parseMessage_def)

text \<open>
  The state \<open>DESCRIPTION_LINE\<close> is entered by a header only, which writes the three
  fields a description reads.
\<close>

lemma fields_written_by_header:
  assumes "parseMessage p ln = Inr (p', r)" and "state p \<noteq> DESCRIPTION_LINE"
    and "state p' = DESCRIPTION_LINE"
  shows "\<exists>g1 g2 g4. MESSAGE_PATTERN ln = Some (g1, g2, g4) \<and> cur_level p' = toLowerCase g1
           \<and> cur_code p' = g2 \<and> cur_line p' = Number g4"
  using assms
  by (auto simp: parseMessage_def Let_def split: if_splits option.splits)

lemma parse_block:
  assumes "state p = NOISE" "MESSAGE_PATTERN h = Some (g1, g2, g4)"
  shows "\<exists>p'. state p' = NOISE
         \<and> parser_stats p' = count_level (toLowerCase g1) (parser_stats p)
         \<and> parse_loop p m (h # d # rest) =
             parse_loop p'
               (add_message m \<lparr>level = toLowerCase g1, code = g2, line = Number g4,
                                message = trim d\<rparr>) rest"
proof -
  let ?p1 = "p\<lparr>state := DESCRIPTION_LINE, cur_level := toLowerCase g1, cur_code := g2,
            cur_line := Number g4,
            parser_stats := count_level (toLowerCase g1) (parser_stats p)\<rparr>"
  have 1: "parseMessage p h = Inr (?p1, None)"
    using parseMessage_header [OF assms] .
  have 2: "parseMessage ?p1 d =
     Inr (?p1\<lparr>state := NOISE\<rparr>,
          Some \<lparr>level = toLowerCase g1, code = g2, line = Number g4, message = trim d\<rparr>)"
    using parseMessage_description [of ?p1 d] by simp
  have "parse_loop p m (h # d # rest) =
          parse_loop (?p1\<lparr>state := NOISE\<rparr>)
            (add_message m \<lparr>level = toLowerCase g1, code = g2, line = Number g4,
                             message = trim d\<rparr>) rest"
    by (simp add: 1 2)
  moreover have "state (?p1\<lparr>state := NOISE\<rparr>) = NOISE" by simp
  moreover have "parser_stats (?p1\<lparr>state := NOISE\<rparr>) = count_level (toLowerCase g1) (parser_stats p)"
    by simp
  ultimately show ?thesis by blast
qed

lemma parse_loop_append:
  "parse_loop p m (xs @ ys) =
     (case parse_loop p m xs of Inl e \<Rightarrow> Inl e | Inr (p', m') \<Rightarrow> parse_loop p' m' ys)"
  by (induction xs arbitrary: p m) (auto split: sum.splits option.splits prod.splits)

lemma split_nl_nonempty: "split_nl s \<noteq> []"
  by (induction s) (auto split: list.splits)

lemma split_nl_append:
  "split_nl (a @ CHR 0x0A # b) = split_nl a @ split_nl b"
  by (induction a) (auto split: list.splits simp: split_nl_nonempty)

lemma split_nl_trailing: "split_nl (s @ [CHR 0x0A]) = split_nl s @ [[]]"
  using split_nl_append [of s "[]"] by simp

lemma toLowerCase_keywords:
  "toLowerCase ''INFO'' = ''info''" "toLowerCase ''ERROR'' = ''error''"
  "toLowerCase ''WARNING'' = ''warning''"
  by code_simp+


lemma run_stop:
  "list_all P xs \<Longrightarrow> \<not> P c \<Longrightarrow>
     takeWhile P (xs @ c # r) = xs \<and> dropWhile P (xs @ c # r) = c # r"
  by (induction xs) auto

lemma run_end: "list_all P xs \<Longrightarrow> takeWhile P xs = xs \<and> dropWhile P xs = []"
  by (induction xs) auto

lemma match_severity_keyword:
  "sev \<in> {''INFO'', ''ERROR'', ''WARNING''} \<Longrightarrow> match_severity (sev @ r) = Some (sev, r)"
  by (auto simp: match_severity_def)

lemma match_line_group_suffix:
  assumes "ns \<noteq> []" "list_all is_digit ns"
  shows "match_line_group ('' (Line '' @ ns @ CHR '')'' # r) = Some ns"
proof -
  have "\<not> is_digit CHR '')''" by (simp add: is_digit_def)
  from run_stop [OF assms(2) this, of r] show ?thesis
    using assms(1) by (simp add: match_line_group_def)
qed

lemma pattern_prefix:
  assumes "sev \<in> {''INFO'', ''ERROR'', ''WARNING''}"
    and "ds \<noteq> []" "list_all is_digit ds"
    and "tok \<noteq> []" "list_all (\<lambda>c. \<not> is_space c) tok"
    and "r = [] \<or> is_space (hd r)"
  shows "MESSAGE_PATTERN (''*** '' @ sev @ '' M'' @ ds @ '': '' @ tok @ r) =
           Some (sev, CHR ''M'' # ds, match_line_group r)"
proof -
  have 1: "literal ''*** '' (''*** '' @ sev @ '' M'' @ ds @ '': '' @ tok @ r) =
             Some (sev @ '' M'' @ ds @ '': '' @ tok @ r)"
    by (rule literal_append)
  have 2: "match_severity (sev @ '' M'' @ ds @ '': '' @ tok @ r) =
             Some (sev, '' M'' @ ds @ '': '' @ tok @ r)"
    using assms(1) by (rule match_severity_keyword)
  have 3: "literal '' M'' ('' M'' @ ds @ '': '' @ tok @ r) = Some (ds @ '': '' @ tok @ r)"
    by (rule literal_append)
  have nd: "\<not> is_digit CHR '':''" by (simp add: is_digit_def)
  have 4: "takeWhile is_digit (ds @ '': '' @ tok @ r) = ds"
          "dropWhile is_digit (ds @ '': '' @ tok @ r) = '': '' @ tok @ r"
    using run_stop [OF assms(3) nd, of "CHR '' '' # tok @ r"] by simp_all
  have 5: "literal '': '' ('': '' @ tok @ r) = Some (tok @ r)"
    by (rule literal_append)
  have 6: "takeWhile (\<lambda>c. \<not> is_space c) (tok @ r) = tok \<and>
           dropWhile (\<lambda>c. \<not> is_space c) (tok @ r) = r"
  proof (cases r)
    case Nil
    then show ?thesis using run_end [OF assms(5)] by simp
  next
    case (Cons c r')
    then have "\<not> \<not> is_space c" using assms(6) by simp
    from run_stop [OF assms(5) this, of r'] show ?thesis using Cons by simp
  qed
  show ?thesis
    unfolding MESSAGE_PATTERN_def 1 2 3 option.case prod.case Let_def 4 5
    using 6 assms(2,4) by simp
qed

lemma pattern_with_line:
  assumes "sev \<in> {''INFO'', ''ERROR'', ''WARNING''}"
    and "ds \<noteq> []" "list_all is_digit ds"
    and "tok \<noteq> []" "list_all (\<lambda>c. \<not> is_space c) tok"
    and "ns \<noteq> []" "list_all is_digit ns"
  shows "MESSAGE_PATTERN (''*** '' @ sev @ '' M'' @ ds @ '': '' @ tok @ '' (Line '' @ ns @ '')'' @ r) =
           Some (sev, CHR ''M'' # ds, Some ns)"
proof -
  have sp: "'' (Line '' @ ns @ '')'' @ r = [] \<or> is_space (hd ('' (Line '' @ ns @ '')'' @ r))"
    by (simp add: is_space_def)
  show ?thesis
    using pattern_prefix [OF assms(1-5) sp] match_line_group_suffix [OF assms(6,7), of r]
    by simp
qed


lemma count_level_fields:
  assumes "g1 \<in> {''INFO'', ''ERROR'', ''WARNING''}"
  shows "notes' (count_level (toLowerCase g1) st) = notes' st + (if g1 = ''INFO'' then 1 else 0)"
    and "errors (count_level (toLowerCase g1) st) = errors st + (if g1 = ''ERROR'' then 1 else 0)"
    and "warnings (count_level (toLowerCase g1) st) = warnings st + (if g1 = ''WARNING'' then 1 else 0)"
  using assms by (auto simp: count_level_def toLowerCase_keywords)

lemma count_headers_Cons:
  "MESSAGE_PATTERN h = Some (g1, g2, g4) \<Longrightarrow>
     count_headers sev (h # ls) = (if g1 = sev then 1 else 0) + count_headers sev ls"
  by (simp add: count_headers_def is_header_def)

lemma count_headers_Nil: "count_headers sev [] = 0"
  by (simp add: count_headers_def)

lemma parseMessage_header_cases:
  assumes "state p = NOISE" "startsWith l ''***''" "parseMessage p l = Inr (p', r)"
  obtains g1 g2 g4 where "MESSAGE_PATTERN l = Some (g1, g2, g4)"
    and "r = None" and "state p' = DESCRIPTION_LINE"
    and "parser_stats p' = count_level (toLowerCase g1) (parser_stats p)"
proof (cases "MESSAGE_PATTERN l")
  case None
  then show ?thesis using parseMessage_malformed [OF assms(1,2)] assms(3) by simp
next
  case (Some g)
  obtain g1 g2 g4 where g: "g = (g1, g2, g4)" by (cases g)
  show ?thesis
    using parseMessage_header [OF assms(1), of l g1 g2 g4] Some g assms(3) that [of g1 g2 g4]
    by auto
qed

lemma stats_parse_loop:
  "parse_loop p m ls = Inr (p', m') \<Longrightarrow> state p = NOISE \<Longrightarrow>
     notes' (parser_stats p') = notes' (parser_stats p) + count_headers ''INFO'' (header_lines ls)
   \<and> errors (parser_stats p') = errors (parser_stats p) + count_headers ''ERROR'' (header_lines ls)
   \<and> warnings (parser_stats p') = warnings (parser_stats p) + count_headers ''WARNING'' (header_lines ls)"
proof (induction ls arbitrary: p m rule: header_lines.induct)
  case 1
  then show ?case by (simp add: count_headers_Nil)
next
  case (2 l)
  show ?case
  proof (cases "startsWith l ''***''")
    case False
    then show ?thesis using 2 by (simp add: parseMessage_noise count_headers_Nil)
  next
    case True
    obtain q r where q: "parseMessage p l = Inr (q, r)"
      using 2(1) by (auto split: sum.splits)
    from parseMessage_header_cases [OF 2(2) True q] obtain g1 g2 g4
      where g: "MESSAGE_PATTERN l = Some (g1, g2, g4)" "r = None"
        "parser_stats q = count_level (toLowerCase g1) (parser_stats p)"
      by metis
    have "p' = q" using 2(1) q g(2) by simp
    then show ?thesis
      using True g(3) count_level_fields [OF pattern_severity [OF g(1)]]
      by (simp add: count_headers_Cons [OF g(1)] count_headers_Nil)
  qed
next
  case (3 l d ls)
  show ?case
  proof (cases "startsWith l ''***''")
    case False
    have "parse_loop p m (d # ls) = Inr (p', m')"
      using "3.prems" False by (simp add: parseMessage_noise)
    from "3.IH"(2) [OF False this "3.prems"(2)] show ?thesis using False by simp
  next
    case True
    obtain q r where q: "parseMessage p l = Inr (q, r)"
      using "3.prems"(1) by (auto split: sum.splits)
    from parseMessage_header_cases [OF "3.prems"(2) True q] obtain g1 g2 g4
      where g: "MESSAGE_PATTERN l = Some (g1, g2, g4)"
      by metis
    from parse_block [OF "3.prems"(2) g, of m d ls] obtain q'
      where q': "state q' = NOISE"
        "parser_stats q' = count_level (toLowerCase g1) (parser_stats p)"
        "parse_loop p m (l # d # ls) =
           parse_loop q' (add_message m \<lparr>level = toLowerCase g1, code = g2, line = Number g4,
                                           message = trim d\<rparr>) ls"
      by blast
    have "parse_loop q' (add_message m \<lparr>level = toLowerCase g1, code = g2, line = Number g4,
                                           message = trim d\<rparr>) ls = Inr (p', m')"
      using "3.prems"(1) q'(3) by simp
    from "3.IH"(1) [OF True this q'(1)] show ?thesis
      using True q'(2) count_level_fields [OF pattern_severity [OF g], of "parser_stats p"]
      by (simp add: count_headers_Cons [OF g])
  qed
qed

text \<open>
  Claim C3, as amended. When aggregation succeeds, each counter is the number of
  lines of its severity among the lines the parser reads as headers
  (\<open>header_lines\<close>): a header at the end of the buffer, with no description, is
  counted; a header line that comes right after a header is that header's description
  and is not counted.
\<close>

theorem stats_count_headers:
  assumes "parseMessages buffer = Inr r"
  shows "notes' (stats r) = count_headers ''INFO'' (header_lines (split_nl buffer))
       \<and> errors (stats r) = count_headers ''ERROR'' (header_lines (split_nl buffer))
       \<and> warnings (stats r) = count_headers ''WARNING'' (header_lines (split_nl buffer))"
proof -
  let ?l = "parse_loop (new_parser\<lparr>state := NOISE\<rparr>) [] (split_nl buffer)"
  from assms obtain p' m' where l: "?l = Inr (p', m')"
    and r: "r = \<lparr>messages = m', stats = parser_stats p'\<rparr>"
    unfolding parseMessages_def parser_parseMessages_def
    by (cases ?l) auto
  have "state (new_parser\<lparr>state := NOISE\<rparr>) = NOISE" by simp
  from stats_parse_loop [OF l this] show ?thesis
    using r by (simp add: new_parser_def)
qed


text \<open>
  The theorem at a warning with its description and a last error header without one:
  both are counted.
\<close>

theorem stats_count_headers_witness:
  "parseMessages ''*** WARNING M1: a.svd (Line 2)\<newline>  text\<newline>*** ERROR M2: a.svd'' =
     Inr \<lparr>messages = [(Num 2, [\<lparr>level = ''warning'', code = ''M1'', line = Num 2, message = ''text''\<rparr>])],
          stats = \<lparr>notes' = 0, errors = 1, warnings = 1\<rparr>\<rparr>
   \<and> count_headers ''INFO'' (header_lines (split_nl ''*** WARNING M1: a.svd (Line 2)\<newline>  text\<newline>*** ERROR M2: a.svd'')) = 0
   \<and> count_headers ''ERROR'' (header_lines (split_nl ''*** WARNING M1: a.svd (Line 2)\<newline>  text\<newline>*** ERROR M2: a.svd'')) = 1
   \<and> count_headers ''WARNING'' (header_lines (split_nl ''*** WARNING M1: a.svd (Line 2)\<newline>  text\<newline>*** ERROR M2: a.svd'')) = 1"
proof -
  let ?b = "''*** WARNING M1: a.svd (Line 2)\<newline>  text\<newline>*** ERROR M2: a.svd''"
  let ?r = "\<lparr>messages = [(Num 2, [\<lparr>level = ''warning'', code = ''M1'', line = Num 2, message = ''text''\<rparr>])],
          stats = \<lparr>notes' = 0, errors = 1, warnings = 1\<rparr>\<rparr>"
  have p: "parseMessages ?b = Inr ?r" by code_simp
  from stats_count_headers [OF p] show ?thesis using p by simp
qed

text \<open>
  As stated, for all header lines anywhere in the buffer, the claim fails: of two
  \<^verbatim>\<open>INFO\<close> header lines in a row only the first is counted.
\<close>

theorem stats_count_headers_counterexample:
  "count_headers ''INFO'' (split_nl ''*** INFO M1: a.svd\<newline>*** INFO M2: b.svd'') = 2
   \<and> parseMessages ''*** INFO M1: a.svd\<newline>*** INFO M2: b.svd'' =
       Inr \<lparr>messages = [(NaN, [\<lparr>level = ''info'', code = ''M1'', line = NaN,
                                   message = ''*** INFO M2: b.svd''\<rparr>])],
            stats = \<lparr>notes' = 1, errors = 0, warnings = 0\<rparr>\<rparr>"
  by code_simp

lemma startsWith_Some: "startsWith s q \<Longrightarrow> \<exists>r. s = q @ r"
  by (induction s q rule: startsWith.induct) auto

lemma match_severity_text:
  "match_severity s = Some (g1, r) \<Longrightarrow> s = g1 @ r"
  by (auto simp: match_severity_def split: option.splits dest: literal_Some)

lemma run_split:
  "list_all P (takeWhile P xs) \<and> (dropWhile P xs = [] \<or> \<not> P (hd (dropWhile P xs)))"
  by (induction xs) auto

lemma match_line_group_iff:
  "(match_line_group r = Some ns) =
     (ns \<noteq> [] \<and> list_all is_digit ns \<and> (\<exists>r'. r = '' (Line '' @ ns @ '')'' @ r'))"
proof
  assume a: "match_line_group r = Some ns"
  then obtain r1 where r1: "literal '' (Line '' r = Some r1"
    by (auto simp: match_line_group_def split: option.splits)
  then have r: "r = '' (Line '' @ r1" by (rule literal_Some)
  from a r1 have ns: "ns = takeWhile is_digit r1" "ns \<noteq> []"
    and sw: "startsWith (dropWhile is_digit r1) '')''"
    by (auto simp: match_line_group_def Let_def split: if_splits)
  from startsWith_Some [OF sw] obtain r' where "dropWhile is_digit r1 = '')'' @ r'" by blast
  then have "r1 = ns @ '')'' @ r'"
    using takeWhile_dropWhile_id [of is_digit r1] ns(1) by simp
  moreover have "list_all is_digit ns" using run_split [of is_digit r1] ns(1) by simp
  ultimately show "ns \<noteq> [] \<and> list_all is_digit ns \<and> (\<exists>r'. r = '' (Line '' @ ns @ '')'' @ r')"
    using ns(2) r by auto
next
  assume "ns \<noteq> [] \<and> list_all is_digit ns \<and> (\<exists>r'. r = '' (Line '' @ ns @ '')'' @ r')"
  then obtain r' where h: "ns \<noteq> []" "list_all is_digit ns" "r = '' (Line '' @ ns @ '')'' @ r'"
    by blast
  show "match_line_group r = Some ns"
    using match_line_group_suffix [OF h(1,2), of r'] h(3) by simp
qed

lemma pattern_shape:
  assumes "MESSAGE_PATTERN h = Some (g1, g2, g4)"
  shows "\<exists>ds tok r. h = ''*** '' @ g1 @ '' M'' @ ds @ '': '' @ tok @ r
           \<and> g1 \<in> {''INFO'', ''ERROR'', ''WARNING''}
           \<and> ds \<noteq> [] \<and> list_all is_digit ds
           \<and> tok \<noteq> [] \<and> list_all (\<lambda>c. \<not> is_space c) tok
           \<and> (r = [] \<or> is_space (hd r))
           \<and> g2 = ''M'' @ ds \<and> g4 = match_line_group r"
proof -
  from assms obtain r1 where r1: "literal ''*** '' h = Some r1"
    by (auto simp: MESSAGE_PATTERN_def split: option.splits)
  from assms r1 obtain r2 where r2: "match_severity r1 = Some (g1, r2)"
    by (auto simp: MESSAGE_PATTERN_def Let_def split: option.splits if_splits)
  from assms r1 r2 obtain r3 where r3: "literal '' M'' r2 = Some r3"
    by (auto simp: MESSAGE_PATTERN_def Let_def split: option.splits if_splits)
  let ?ds = "takeWhile is_digit r3"
  let ?r4 = "dropWhile is_digit r3"
  from assms r1 r2 r3 obtain r5 where ds: "?ds \<noteq> []" and r5: "literal '': '' ?r4 = Some r5"
    by (auto simp: MESSAGE_PATTERN_def Let_def split: option.splits if_splits)
  let ?tok = "takeWhile (\<lambda>c. \<not> is_space c) r5"
  let ?r6 = "dropWhile (\<lambda>c. \<not> is_space c) r5"
  from assms r1 r2 r3 ds r5 have tok: "?tok \<noteq> []"
    and g: "g2 = CHR ''M'' # ?ds" "g4 = match_line_group ?r6"
    by (auto simp: MESSAGE_PATTERN_def Let_def split: option.splits if_splits)
  have "h = ''*** '' @ r1" using r1 by (rule literal_Some)
  moreover have "r1 = g1 @ r2" using r2 by (rule match_severity_text)
  moreover have "r2 = '' M'' @ r3" using r3 by (rule literal_Some)
  moreover have "r3 = ?ds @ ?r4" by simp
  moreover have "?r4 = '': '' @ r5" using r5 by (rule literal_Some)
  moreover have "r5 = ?tok @ ?r6" by simp
  ultimately have h: "h = ''*** '' @ g1 @ '' M'' @ ?ds @ '': '' @ ?tok @ ?r6"
    by (metis append_assoc)
  have "list_all is_digit ?ds" using run_split [of is_digit r3] by simp
  moreover have "list_all (\<lambda>c. \<not> is_space c) ?tok"
    using run_split [of "\<lambda>c. \<not> is_space c" r5] by simp
  moreover have "?r6 = [] \<or> is_space (hd ?r6)"
    using run_split [of "\<lambda>c. \<not> is_space c" r5] by simp
  moreover have "g1 \<in> {''INFO'', ''ERROR'', ''WARNING''}"
    using r2 by (rule match_severity_Some)
  ultimately show ?thesis using h ds tok g by (intro exI [of _ ?ds] exI [of _ ?tok] exI [of _ ?r6]) simp
qed

text \<open>
  Claim C2, as amended. Every line the pattern matches is \<^verbatim>\<open>*** \<close>, a severity
  keyword, \<^verbatim>\<open> M\<close>, digits, \<^verbatim>\<open>: \<close>, a longest run of characters without white
  space, and the rest of the line (first part of the theorem). For every such header
  followed by any second line, the idle parser emits exactly one message for the two
  lines: its level is the keyword in lower case, its code is \<^verbatim>\<open>M\<close> with the digits
  and its text is the second line trimmed. Its line is \<open>N\<close> when the rest of the line
  begins with \<^verbatim>\<open> (Line N)\<close>, that is, when the group stands directly after the run
  (\<open>N\<close> below \<open>2 ^ 53\<close>); it is \<^verbatim>\<open>NaN\<close> when the rest of the line does not begin
  with that group, wherever else in the line a group may stand.
\<close>

theorem wellformed_block:
  "(MESSAGE_PATTERN h = Some (g1, g2, g4) \<longrightarrow>
      (\<exists>ds tok r. h = ''*** '' @ g1 @ '' M'' @ ds @ '': '' @ tok @ r
           \<and> g1 \<in> {''INFO'', ''ERROR'', ''WARNING''}
           \<and> ds \<noteq> [] \<and> list_all is_digit ds
           \<and> tok \<noteq> [] \<and> list_all (\<lambda>c. \<not> is_space c) tok
           \<and> (r = [] \<or> is_space (hd r))
           \<and> g2 = ''M'' @ ds \<and> g4 = match_line_group r))
   \<and> (sev \<in> {''INFO'', ''ERROR'', ''WARNING''}
        \<and> ds \<noteq> [] \<and> list_all is_digit ds
        \<and> tok \<noteq> [] \<and> list_all (\<lambda>c. \<not> is_space c) tok
        \<and> (r = [] \<or> is_space (hd r))
        \<and> state p = NOISE \<longrightarrow>
      (\<exists>p' ln. state p' = NOISE
         \<and> parse_loop p m ((''*** '' @ sev @ '' M'' @ ds @ '': '' @ tok @ r) # d # rest) =
             parse_loop p'
               (add_message m \<lparr>level = toLowerCase sev, code = ''M'' @ ds, line = ln,
                                message = trim d\<rparr>) rest
         \<and> (\<forall>ns r'. ns \<noteq> [] \<and> list_all is_digit ns \<and> digits_value ns < 2 ^ 53
                     \<and> r = '' (Line '' @ ns @ '')'' @ r' \<longrightarrow> ln = Num (digits_value ns))
         \<and> ((\<nexists>ns r'. ns \<noteq> [] \<and> list_all is_digit ns \<and> r = '' (Line '' @ ns @ '')'' @ r')
               \<longrightarrow> ln = NaN)))"
proof (intro conjI impI)
  assume "MESSAGE_PATTERN h = Some (g1, g2, g4)"
  from pattern_shape [OF this]
  show "\<exists>ds tok r. h = ''*** '' @ g1 @ '' M'' @ ds @ '': '' @ tok @ r
           \<and> g1 \<in> {''INFO'', ''ERROR'', ''WARNING''}
           \<and> ds \<noteq> [] \<and> list_all is_digit ds
           \<and> tok \<noteq> [] \<and> list_all (\<lambda>c. \<not> is_space c) tok
           \<and> (r = [] \<or> is_space (hd r))
           \<and> g2 = ''M'' @ ds \<and> g4 = match_line_group r"
    by blast
next
  assume a: "sev \<in> {''INFO'', ''ERROR'', ''WARNING''}
        \<and> ds \<noteq> [] \<and> list_all is_digit ds
        \<and> tok \<noteq> [] \<and> list_all (\<lambda>c. \<not> is_space c) tok
        \<and> (r = [] \<or> is_space (hd r))
        \<and> state p = NOISE"
  let ?h = "''*** '' @ sev @ '' M'' @ ds @ '': '' @ tok @ r"
  have pat: "MESSAGE_PATTERN ?h = Some (sev, CHR ''M'' # ds, match_line_group r)"
    using a by (intro pattern_prefix) simp_all
  have idle: "state p = NOISE" using a by simp
  from parse_block [OF idle pat, of m d rest] obtain p' where p':
    "state p' = NOISE"
    "parse_loop p m (?h # d # rest) =
       parse_loop p'
         (add_message m \<lparr>level = toLowerCase sev, code = ''M'' @ ds,
                          line = Number (match_line_group r), message = trim d\<rparr>) rest"
    by auto
  have 1: "\<forall>ns r'. ns \<noteq> [] \<and> list_all is_digit ns \<and> digits_value ns < 2 ^ 53
                     \<and> r = '' (Line '' @ ns @ '')'' @ r'
             \<longrightarrow> Number (match_line_group r) = Num (digits_value ns)"
  proof (intro allI impI)
    fix ns r'
    assume "ns \<noteq> [] \<and> list_all is_digit ns \<and> digits_value ns < 2 ^ 53
                     \<and> r = '' (Line '' @ ns @ '')'' @ r'"
    then have "match_line_group r = Some ns"
      unfolding match_line_group_iff by blast
    then show "Number (match_line_group r) = Num (digits_value ns)" by simp
  qed
  have 2: "(\<nexists>ns r'. ns \<noteq> [] \<and> list_all is_digit ns \<and> r = '' (Line '' @ ns @ '')'' @ r')
             \<longrightarrow> Number (match_line_group r) = NaN"
  proof
    assume n: "\<nexists>ns r'. ns \<noteq> [] \<and> list_all is_digit ns \<and> r = '' (Line '' @ ns @ '')'' @ r'"
    have "match_line_group r = None"
    proof (cases "match_line_group r")
      case None then show ?thesis .
    next
      case (Some ns)
      then show ?thesis using n unfolding match_line_group_iff by blast
    qed
    then show "Number (match_line_group r) = NaN" by simp
  qed
  show "\<exists>p' ln. state p' = NOISE
         \<and> parse_loop p m (?h # d # rest) =
             parse_loop p'
               (add_message m \<lparr>level = toLowerCase sev, code = ''M'' @ ds, line = ln,
                                message = trim d\<rparr>) rest
         \<and> (\<forall>ns r'. ns \<noteq> [] \<and> list_all is_digit ns \<and> digits_value ns < 2 ^ 53
                     \<and> r = '' (Line '' @ ns @ '')'' @ r' \<longrightarrow> ln = Num (digits_value ns))
         \<and> ((\<nexists>ns r'. ns \<noteq> [] \<and> list_all is_digit ns \<and> r = '' (Line '' @ ns @ '')'' @ r')
               \<longrightarrow> ln = NaN)"
    using p' 1 2 by blast
qed


text \<open>
  The theorem at a warning \<^verbatim>\<open>M305\<close> with the group directly after \<^verbatim>\<open>a.svd\<close>
  (line 12), and at the same warning with free text before the group (line
  \<^verbatim>\<open>NaN\<close>).
\<close>

theorem wellformed_block_witness:
  "(\<exists>ds tok r. ''*** WARNING M305: a.svd (Line 12)'' = ''*** '' @ ''WARNING'' @ '' M'' @ ds @ '': '' @ tok @ r
       \<and> ds \<noteq> [] \<and> list_all is_digit ds
       \<and> tok \<noteq> [] \<and> list_all (\<lambda>c. \<not> is_space c) tok
       \<and> (r = [] \<or> is_space (hd r))
       \<and> ''M305'' = ''M'' @ ds \<and> Some ''12'' = match_line_group r)
   \<and> (\<exists>p'. state p' = NOISE
       \<and> parse_loop new_parser []
            [''*** WARNING M305: a.svd (Line 12)'', ''  Field size exceeds register width.''] =
          Inr (p', [(Num 12, [\<lparr>level = ''warning'', code = ''M305'', line = Num 12,
                               message = ''Field size exceeds register width.''\<rparr>])]))
   \<and> (\<exists>p'. state p' = NOISE
       \<and> parse_loop new_parser []
            [''*** WARNING M305: Field 'foo' (Line 12)'', ''  Field size exceeds register width.''] =
          Inr (p', [(NaN, [\<lparr>level = ''warning'', code = ''M305'', line = NaN,
                            message = ''Field size exceeds register width.''\<rparr>])]))"
proof -
  let ?d = "''  Field size exceeds register width.''"
  have t: "trim ?d = ''Field size exceeds register width.''" by code_simp
  have v: "digits_value ''12'' = 12" by code_simp
  have pat: "MESSAGE_PATTERN ''*** WARNING M305: a.svd (Line 12)'' = Some (''WARNING'', ''M305'', Some ''12'')"
    by code_simp
  have A: "\<exists>ds tok r. ''*** WARNING M305: a.svd (Line 12)'' = ''*** '' @ ''WARNING'' @ '' M'' @ ds @ '': '' @ tok @ r
       \<and> ds \<noteq> [] \<and> list_all is_digit ds
       \<and> tok \<noteq> [] \<and> list_all (\<lambda>c. \<not> is_space c) tok
       \<and> (r = [] \<or> is_space (hd r))
       \<and> ''M305'' = ''M'' @ ds \<and> Some ''12'' = match_line_group r"
    using wellformed_block [THEN conjunct1, THEN mp, OF pat] by blast
  have h1: "''WARNING'' \<in> {''INFO'', ''ERROR'', ''WARNING''}
        \<and> ''305'' \<noteq> [] \<and> list_all is_digit ''305''
        \<and> ''a.svd'' \<noteq> [] \<and> list_all (\<lambda>c. \<not> is_space c) ''a.svd''
        \<and> ('' (Line 12)'' = [] \<or> is_space (hd '' (Line 12)''))
        \<and> state new_parser = NOISE"
    by (simp add: is_digit_def is_space_def new_parser_def)
  from wellformed_block [THEN conjunct2, THEN mp, OF h1, of "[]" ?d "[]"]
  obtain p1 ln1 where b1: "state p1 = NOISE"
    "parse_loop new_parser []
       ((''*** '' @ ''WARNING'' @ '' M'' @ ''305'' @ '': '' @ ''a.svd'' @ '' (Line 12)'') # ?d # []) =
     parse_loop p1 (add_message [] \<lparr>level = toLowerCase ''WARNING'', code = ''M'' @ ''305'',
                                     line = ln1, message = trim ?d\<rparr>) []"
    "\<forall>ns r'. ns \<noteq> [] \<and> list_all is_digit ns \<and> digits_value ns < 2 ^ 53
          \<and> '' (Line 12)'' = '' (Line '' @ ns @ '')'' @ r' \<longrightarrow> ln1 = Num (digits_value ns)"
    by blast
  have "''12'' \<noteq> [] \<and> list_all is_digit ''12'' \<and> digits_value ''12'' < 2 ^ 53
          \<and> '' (Line 12)'' = '' (Line '' @ ''12'' @ '')'' @ []"
    by (simp add: is_digit_def v)
  with b1(3) have "ln1 = Num (digits_value ''12'')" by blast
  then have ln1: "ln1 = Num 12" by (simp add: v)
  have B: "\<exists>p'. state p' = NOISE
       \<and> parse_loop new_parser [] [''*** WARNING M305: a.svd (Line 12)'', ?d] =
          Inr (p', [(Num 12, [\<lparr>level = ''warning'', code = ''M305'', line = Num 12,
                               message = ''Field size exceeds register width.''\<rparr>])])"
    using b1(1,2) by (simp add: ln1 toLowerCase_keywords t add_message_def)
  have h2: "''WARNING'' \<in> {''INFO'', ''ERROR'', ''WARNING''}
        \<and> ''305'' \<noteq> [] \<and> list_all is_digit ''305''
        \<and> ''Field'' \<noteq> [] \<and> list_all (\<lambda>c. \<not> is_space c) ''Field''
        \<and> ('' 'foo' (Line 12)'' = [] \<or> is_space (hd '' 'foo' (Line 12)''))
        \<and> state new_parser = NOISE"
    by (simp add: is_digit_def is_space_def new_parser_def)
  from wellformed_block [THEN conjunct2, THEN mp, OF h2, of "[]" ?d "[]"]
  obtain p2 ln2 where b2: "state p2 = NOISE"
    "parse_loop new_parser []
       ((''*** '' @ ''WARNING'' @ '' M'' @ ''305'' @ '': '' @ ''Field'' @ '' 'foo' (Line 12)'') # ?d # []) =
     parse_loop p2 (add_message [] \<lparr>level = toLowerCase ''WARNING'', code = ''M'' @ ''305'',
                                     line = ln2, message = trim ?d\<rparr>) []"
    "(\<nexists>ns r'. ns \<noteq> [] \<and> list_all is_digit ns
          \<and> '' 'foo' (Line 12)'' = '' (Line '' @ ns @ '')'' @ r') \<longrightarrow> ln2 = NaN"
    by blast
  have "\<nexists>ns r'. ns \<noteq> [] \<and> list_all is_digit ns
          \<and> '' 'foo' (Line 12)'' = '' (Line '' @ ns @ '')'' @ r'"
    by simp
  with b2(3) have ln2: "ln2 = NaN" by blast
  have C: "\<exists>p'. state p' = NOISE
       \<and> parse_loop new_parser [] [''*** WARNING M305: Field 'foo' (Line 12)'', ?d] =
          Inr (p', [(NaN, [\<lparr>level = ''warning'', code = ''M305'', line = NaN,
                            message = ''Field size exceeds register width.''\<rparr>])])"
    using b2(1,2) by (simp add: ln2 toLowerCase_keywords t add_message_def)
  from A B C show ?thesis by blast
qed

text \<open>
  As stated, with the line always the number of the \<^verbatim>\<open>(Line N)\<close> suffix, the claim
  fails: in the first example of the specification free text stands between the first
  run and the group. The pattern matches that header, the header ends in
  \<^verbatim>\<open>(Line 12)\<close>, and the line of its message is \<^verbatim>\<open>NaN\<close>.
\<close>

theorem wellformed_block_counterexample:
  "MESSAGE_PATTERN ''*** WARNING M305: Field 'foo' (Line 12)'' = Some (''WARNING'', ''M305'', None)
   \<and> suffix_line_number ''*** WARNING M305: Field 'foo' (Line 12)'' = Some 12
   \<and> parseMessages ''*** WARNING M305: Field 'foo' (Line 12)\<newline>  Field size exceeds register width.'' =
       Inr \<lparr>messages = [(NaN, [\<lparr>level = ''warning'', code = ''M305'', line = NaN,
                                   message = ''Field size exceeds register width.''\<rparr>])],
            stats = \<lparr>notes' = 0, errors = 0, warnings = 1\<rparr>\<rparr>"
  by code_simp

text \<open>
  Claim C4, as amended. A header read by the idle parser with a second header line
  right after it: the second line is taken as the description of the first. One
  message is emitted, with the level, code and line of the first header and the second
  header line, trimmed, as its text; the counters change for the first header only, and
  the parser is idle again for the lines that follow.
\<close>

theorem header_after_header:
  assumes "state p = NOISE"
    and "MESSAGE_PATTERN h1 = Some (g1, g2, g4)"
    and "MESSAGE_PATTERN h2 = Some (k1, k2, k4)"
  shows "\<exists>p'. state p' = NOISE
         \<and> parser_stats p' = count_level (toLowerCase g1) (parser_stats p)
         \<and> parse_loop p m (h1 # h2 # rest) =
             parse_loop p'
               (add_message m \<lparr>level = toLowerCase g1, code = g2, line = Number g4,
                                message = trim h2\<rparr>) rest"
  using parse_block [OF assms(1,2)] .

text \<open>
  The theorem at an \<^verbatim>\<open>INFO\<close> header followed by an \<^verbatim>\<open>ERROR\<close> header.
\<close>

theorem header_after_header_witness:
  "\<exists>p'. state p' = NOISE
     \<and> parser_stats p' = \<lparr>notes' = 1, errors = 0, warnings = 0\<rparr>
     \<and> parse_loop new_parser [] [''*** INFO M1: a.svd (Line 5)'', ''*** ERROR M2: a.svd (Line 6)''] =
        Inr (p', [(Num 5, [\<lparr>level = ''info'', code = ''M1'', line = Num 5,
                            message = ''*** ERROR M2: a.svd (Line 6)''\<rparr>])])"
proof -
  have a: "state new_parser = NOISE" by (simp add: new_parser_def)
  have b: "MESSAGE_PATTERN ''*** INFO M1: a.svd (Line 5)'' = Some (''INFO'', ''M1'', Some ''5'')"
    by code_simp
  have c: "MESSAGE_PATTERN ''*** ERROR M2: a.svd (Line 6)'' = Some (''ERROR'', ''M2'', Some ''6'')"
    by code_simp
  have v: "digits_value ''5'' = 5" by code_simp
  have t: "trim ''*** ERROR M2: a.svd (Line 6)'' = ''*** ERROR M2: a.svd (Line 6)''" by code_simp
  have s: "count_level ''info'' (parser_stats new_parser) = \<lparr>notes' = 1, errors = 0, warnings = 0\<rparr>"
    by (simp add: count_level_def new_parser_def)
  from header_after_header [OF a b c, of "[]" "[]"] show ?thesis
    by (simp add: toLowerCase_keywords v t s add_message_def)
qed

text \<open>
  As stated the claim fails: a message is emitted for the first header, the second
  header is not counted as an error, and the line after it is read as noise.
\<close>

theorem header_after_header_counterexample:
  "parseMessages ''*** INFO M1: a.svd (Line 5)\<newline>*** ERROR M2: a.svd (Line 6)\<newline>  text'' =
     Inr \<lparr>messages = [(Num 5, [\<lparr>level = ''info'', code = ''M1'', line = Num 5,
                                  message = ''*** ERROR M2: a.svd (Line 6)''\<rparr>])],
          stats = \<lparr>notes' = 1, errors = 0, warnings = 0\<rparr>\<rparr>"
  by code_simp

text \<open>
  Claim C5, as amended. A header whose line group is missing (group 4 of the match is
  undefined), read by the idle parser and followed by any description: the message has
  line \<^verbatim>\<open>NaN\<close>, and the annotation the batcher makes of that message has
  \<^verbatim>\<open>start_line\<close> and \<^verbatim>\<open>end_line\<close> 0.
\<close>

theorem missing_line_number:
  assumes "state p = NOISE" and "MESSAGE_PATTERN h = Some (g1, g2, None)"
  shows "\<exists>p1 p2 msg a.
           parseMessage p h = Inr (p1, None)
         \<and> parseMessage p1 d = Inr (p2, Some msg)
         \<and> line msg = NaN
         \<and> getAnnotations svdPath (add_message [] msg) = (Some [a], [])
         \<and> start_line a = Num 0 \<and> end_line a = Num 0"
proof -
  let ?p1 = "p\<lparr>state := DESCRIPTION_LINE, cur_level := toLowerCase g1, cur_code := g2,
            cur_line := Number None,
            parser_stats := count_level (toLowerCase g1) (parser_stats p)\<rparr>"
  let ?msg = "\<lparr>level = toLowerCase g1, code = g2, line = NaN, message = trim d\<rparr>"
  have 1: "parseMessage p h = Inr (?p1, None)"
    using parseMessage_header [OF assms] .
  have 2: "parseMessage ?p1 d = Inr (?p1\<lparr>state := NOISE\<rparr>, Some ?msg)"
    using parseMessage_description [of ?p1 d] by simp
  have 3: "getAnnotations svdPath (add_message [] ?msg) = (Some [make_annotation svdPath NaN ?msg], [])"
    by (simp add: add_message_def getAnnotations_single)
  have 4: "start_line (make_annotation svdPath NaN ?msg) = Num 0"
          "end_line (make_annotation svdPath NaN ?msg) = Num 0"
    by (simp_all add: make_annotation_def Let_def)
  have "line ?msg = NaN" by simp
  with 1 2 3 4 show ?thesis by blast
qed

text \<open>
  The theorem at an error without a line group.
\<close>

theorem missing_line_number_witness:
  "\<exists>p1 p2 msg a.
       parseMessage new_parser ''*** ERROR M7: a.svd'' = Inr (p1, None)
     \<and> parseMessage p1 ''  No line here'' = Inr (p2, Some msg)
     \<and> line msg = NaN
     \<and> getAnnotations ''a.svd'' (add_message [] msg) = (Some [a], [])
     \<and> start_line a = Num 0 \<and> end_line a = Num 0"
proof -
  have a: "state new_parser = NOISE" by (simp add: new_parser_def)
  have b: "MESSAGE_PATTERN ''*** ERROR M7: a.svd'' = Some (''ERROR'', ''M7'', None)"
    by code_simp
  from missing_line_number [OF a b] show ?thesis .
qed

text \<open>
  As stated the claim fails: the line of the message is \<^verbatim>\<open>NaN\<close>, not 0.
\<close>

theorem missing_line_number_counterexample:
  "parseMessages ''*** ERROR M7: a.svd\<newline>  No line here'' =
     Inr \<lparr>messages = [(NaN, [\<lparr>level = ''error'', code = ''M7'', line = NaN,
                                 message = ''No line here''\<rparr>])],
          stats = \<lparr>notes' = 0, errors = 1, warnings = 0\<rparr>\<rparr>
   \<and> line \<lparr>level = ''error'', code = ''M7'', line = NaN, message = ''No line here''\<rparr> \<noteq> Num 0"
  by code_simp


lemma new_parser_idle: "new_parser\<lparr>state := NOISE\<rparr> = new_parser"
  by (simp add: new_parser_def)

lemma parseMessages_loop:
  "parseMessages buffer =
     (case parse_loop new_parser [] (split_nl buffer) of
        Inl e \<Rightarrow> Inl e
      | Inr (p', m) \<Rightarrow> Inr \<lparr>messages = m, stats = parser_stats p'\<rparr>)"
  by (simp add: parseMessages_def parser_parseMessages_def new_parser_idle)

text \<open>
  Claim C8, as amended. A line that begins with three asterisks and that the pattern
  does not match, met while the parser is idle (the lines before it parsed, and the
  last of them is not a header waiting for its description): \<open>parseMessage\<close> raises
  \<^verbatim>\<open>TypeError\<close>, aggregation of the whole output raises it and gives no result, and
  \<^verbatim>\<open>main\<close> is rejected with it without a single request to the check-run interface.
\<close>

theorem malformed_marker_line:
  assumes "parse_loop new_parser [] pre = Inr (p, m)" and "state p = NOISE"
    and "startsWith l ''***''" and "MESSAGE_PATTERN l = None"
    and "split_nl stdout = pre @ l # post"
    and "install env = Inr tool"
    and "getInput env ''path'' = Inr svdPath" and "getInput env ''token'' = Inr token"
    and "exec env tool [svdPath] = Inr (stdout, [])"
  shows "parseMessage p l = Inl TypeError
       \<and> parseMessages stdout = Inl TypeError
       \<and> main env = (Inl TypeError, [])"
proof -
  have 1: "parseMessage p l = Inl TypeError"
    using assms(2-4) by (rule parseMessage_malformed)
  have "parse_loop new_parser [] (pre @ l # post) = Inl TypeError"
    by (simp add: parse_loop_append assms(1) 1)
  then have 2: "parseMessages stdout = Inl TypeError"
    by (simp add: parseMessages_loop assms(5))
  have "run env tool svdPath = Inl TypeError"
    by (simp add: run_def assms(9) 2)
  then have "main env = (Inl TypeError, [])"
    by (simp add: main_def assms(6-8))
  with 1 2 show ?thesis by simp
qed

text \<open>
  The theorem at an output whose second line is \<^verbatim>\<open>***bad\<close>.
\<close>

theorem malformed_marker_line_witness:
  "parseMessage new_parser ''***bad'' = Inl TypeError
   \<and> parseMessages ''noise\<newline>***bad\<newline>more'' = Inl TypeError
   \<and> main \<lparr>install = Inr ''SVDConv'', getInput = (\<lambda>n. Inr ''a.svd''),
            exec = (\<lambda>e a. Inr (''noise\<newline>***bad\<newline>more'', [])),
            client = (\<lambda>n. True)\<rparr> = (Inl TypeError, [])"
proof -
  let ?env = "\<lparr>install = Inr ''SVDConv'', getInput = (\<lambda>n. Inr ''a.svd''),
            exec = (\<lambda>e a. Inr (''noise\<newline>***bad\<newline>more'', [])),
            client = (\<lambda>n. True)\<rparr>"
  have i: "state new_parser = NOISE" by (simp add: new_parser_def)
  have n: "\<not> startsWith ''noise'' ''***''" by simp
  have a: "parse_loop new_parser [] [''noise''] = Inr (new_parser, [])"
    by (simp add: parseMessage_noise [OF i n])
  have b: "startsWith ''***bad'' ''***''" by simp
  have c: "MESSAGE_PATTERN ''***bad'' = None" by code_simp
  have d: "split_nl ''noise\<newline>***bad\<newline>more'' = [''noise''] @ ''***bad'' # [''more'']"
    by code_simp
  have e: "install ?env = Inr ''SVDConv''" "getInput ?env ''path'' = Inr ''a.svd''"
    "getInput ?env ''token'' = Inr ''a.svd''"
    "exec ?env ''SVDConv'' [''a.svd''] = Inr (''noise\<newline>***bad\<newline>more'', [])"
    by simp_all
  from malformed_marker_line [OF a i b c d e] show ?thesis .
qed

text \<open>
  As stated, for every such line, the claim fails: right after a header the line is
  that header's description, and no error is raised.
\<close>

theorem malformed_marker_line_counterexample:
  "startsWith ''***bad'' ''***''
   \<and> MESSAGE_PATTERN ''***bad'' = None
   \<and> parseMessages ''*** INFO M1: a.svd\<newline>***bad'' =
       Inr \<lparr>messages = [(NaN, [\<lparr>level = ''info'', code = ''M1'', line = NaN,
                                   message = ''***bad''\<rparr>])],
            stats = \<lparr>notes' = 1, errors = 0, warnings = 0\<rparr>\<rparr>"
  by code_simp

text \<open>
  Claim C9, as amended. When the last piece of the buffer, split at line feeds, is a
  header read by the idle parser, and the pieces before it parsed: no message is
  emitted for it, it is counted, and aggregation succeeds. The split treats a last
  line feed like any other, so the same buffer followed by a line feed has one more,
  empty piece; that piece is the header's description, and a message with empty text
  is emitted.
\<close>

theorem dangling_last_header:
  assumes "split_nl buffer = pre @ [h]"
    and "parse_loop new_parser [] pre = Inr (p, m)" and "state p = NOISE"
    and "MESSAGE_PATTERN h = Some (g1, g2, g4)"
  shows "parseMessages buffer =
           Inr \<lparr>messages = m, stats = count_level (toLowerCase g1) (parser_stats p)\<rparr>
       \<and> split_nl (buffer @ [CHR 0x0A]) = split_nl buffer @ [[]]
       \<and> parseMessages (buffer @ [CHR 0x0A]) =
           Inr \<lparr>messages = add_message m \<lparr>level = toLowerCase g1, code = g2,
                                             line = Number g4, message = []\<rparr>,
                stats = count_level (toLowerCase g1) (parser_stats p)\<rparr>"
proof -
  let ?p1 = "p\<lparr>state := DESCRIPTION_LINE, cur_level := toLowerCase g1, cur_code := g2,
            cur_line := Number g4,
            parser_stats := count_level (toLowerCase g1) (parser_stats p)\<rparr>"
  have h: "parseMessage p h = Inr (?p1, None)"
    using parseMessage_header [OF assms(3,4)] .
  have 1: "parseMessages buffer =
           Inr \<lparr>messages = m, stats = count_level (toLowerCase g1) (parser_stats p)\<rparr>"
    by (simp add: parseMessages_loop assms(1,2) parse_loop_append h)
  have 2: "split_nl (buffer @ [CHR 0x0A]) = pre @ [h, []]"
    by (simp add: split_nl_trailing assms(1))
  have t: "trim [] = []" by (simp add: trim_def)
  have d: "parseMessage ?p1 [] =
     Inr (?p1\<lparr>state := NOISE\<rparr>,
          Some \<lparr>level = toLowerCase g1, code = g2, line = Number g4, message = []\<rparr>)"
    using parseMessage_description [of ?p1 "[]"] by (simp add: t)
  have 3: "parseMessages (buffer @ [CHR 0x0A]) =
           Inr \<lparr>messages = add_message m \<lparr>level = toLowerCase g1, code = g2,
                                             line = Number g4, message = []\<rparr>,
                stats = count_level (toLowerCase g1) (parser_stats p)\<rparr>"
    unfolding parseMessages_loop 2 by (simp add: parse_loop_append assms(2) h d)
  show ?thesis using 1 3 split_nl_trailing by simp
qed

text \<open>
  The theorem at a line of noise and a last warning header.
\<close>

theorem dangling_last_header_witness:
  "parseMessages ''noise\<newline>*** WARNING M9: a.svd (Line 4)'' =
     Inr \<lparr>messages = [], stats = \<lparr>notes' = 0, errors = 0, warnings = 1\<rparr>\<rparr>
   \<and> parseMessages (''noise\<newline>*** WARNING M9: a.svd (Line 4)'' @ [CHR 0x0A]) =
     Inr \<lparr>messages = [(Num 4, [\<lparr>level = ''warning'', code = ''M9'', line = Num 4, message = []\<rparr>])],
          stats = \<lparr>notes' = 0, errors = 0, warnings = 1\<rparr>\<rparr>"
proof -
  have i: "state new_parser = NOISE" by (simp add: new_parser_def)
  have n: "\<not> startsWith ''noise'' ''***''" by simp
  have a: "split_nl ''noise\<newline>*** WARNING M9: a.svd (Line 4)'' =
             [''noise''] @ [''*** WARNING M9: a.svd (Line 4)'']"
    by code_simp
  have b: "parse_loop new_parser [] [''noise''] = Inr (new_parser, [])"
    by (simp add: parseMessage_noise [OF i n])
  have c: "MESSAGE_PATTERN ''*** WARNING M9: a.svd (Line 4)'' = Some (''WARNING'', ''M9'', Some ''4'')"
    by code_simp
  have v: "digits_value ''4'' = 4" by code_simp
  have s: "count_level ''warning'' (parser_stats new_parser) = \<lparr>notes' = 0, errors = 0, warnings = 1\<rparr>"
    by (simp add: count_level_def new_parser_def)
  from dangling_last_header [OF a b i c] show ?thesis
    by (simp add: toLowerCase_keywords v s add_message_def)
qed

text \<open>
  As stated the claim fails for a buffer that ends in a line feed right after its last
  header: nothing follows the header, and a message with empty text is emitted.
\<close>

theorem dangling_last_header_counterexample:
  "parseMessages ''*** WARNING M9: a.svd (Line 4)\<newline>'' =
     Inr \<lparr>messages = [(Num 4, [\<lparr>level = ''warning'', code = ''M9'', line = Num 4,
                                  message = []\<rparr>])],
          stats = \<lparr>notes' = 0, errors = 0, warnings = 1\<rparr>\<rparr>"
  by code_simp

text \<open>
  Claim C7, as amended. When the tool writes anything to standard error, \<open>run\<close>
  returns \<^verbatim>\<open>null\<close> without parsing, \<^verbatim>\<open>main\<close> sends no request (no check run is
  created) and its promise resolves: the step is not marked as failed.
\<close>

theorem stderr_skips_upload:
  assumes "install env = Inr tool"
    and "getInput env ''path'' = Inr svdPath" and "getInput env ''token'' = Inr token"
    and "exec env tool [svdPath] = Inr (stdout, stderr)" and "stderr \<noteq> []"
  shows "run env tool svdPath = Inr None \<and> main env = (Inr (), []) \<and> \<not> step_failed (main env)"
proof -
  have 1: "run env tool svdPath = Inr None"
    by (simp add: run_def assms(4,5))
  then have "main env = (Inr (), [])"
    by (simp add: main_def assms(1-3))
  with 1 show ?thesis by (simp add: step_failed_def)
qed

text \<open>
  The theorem at a tool that writes a diagnostic and a message on standard error.
\<close>

theorem stderr_skips_upload_witness:
  "run \<lparr>install = Inr ''SVDConv'', getInput = (\<lambda>n. Inr ''a.svd''),
        exec = (\<lambda>e a. Inr (''*** ERROR M1: a.svd\<newline>  text'', ''cannot open file'')),
        client = (\<lambda>n. True)\<rparr> ''SVDConv'' ''a.svd'' = Inr None
   \<and> main \<lparr>install = Inr ''SVDConv'', getInput = (\<lambda>n. Inr ''a.svd''),
        exec = (\<lambda>e a. Inr (''*** ERROR M1: a.svd\<newline>  text'', ''cannot open file'')),
        client = (\<lambda>n. True)\<rparr> = (Inr (), [])"
proof -
  let ?env = "\<lparr>install = Inr ''SVDConv'', getInput = (\<lambda>n. Inr ''a.svd''),
        exec = (\<lambda>e a. Inr (''*** ERROR M1: a.svd\<newline>  text'', ''cannot open file'')),
        client = (\<lambda>n. True)\<rparr>"
  have e: "install ?env = Inr ''SVDConv''" "getInput ?env ''path'' = Inr ''a.svd''"
    "getInput ?env ''token'' = Inr ''a.svd''"
    "exec ?env ''SVDConv'' [''a.svd''] = Inr (''*** ERROR M1: a.svd\<newline>  text'', ''cannot open file'')"
    by simp_all
  have f: "''cannot open file'' \<noteq> []" by simp
  from stderr_skips_upload [OF e f] show ?thesis by simp
qed

text \<open>
  As stated the claim fails in its last part: with output on standard error the step
  does not fail.
\<close>

theorem stderr_skips_upload_counterexample:
  "\<not> step_failed
       (main \<lparr>install = Inr ''SVDConv'', getInput = (\<lambda>n. Inr ''a.svd''),
              exec = (\<lambda>e a. Inr ([], ''cannot open file'')),
              client = (\<lambda>n. True)\<rparr>)"
  by (simp add: step_failed_def main_def run_def)

end
